theory Spec2Isabelle
  imports Complex_Main "HOL-Library.AList"
begin

section \<open>The TF-IDF guesser of \<^verbatim>\<open>tfidf/toytfidf_guesser.py\<close>\<close>

text \<open>
  A shallow embedding of the class \<^verbatim>\<open>ToyTfIdfGuesser\<close>. The object is a record, every
  method takes the record and returns the updated record or the exception it raises; what
  a method has assigned before it raises is not kept. The methods have their names, but
  for \<^verbatim>\<open>__init__\<close> (\<open>init\<close>), \<^verbatim>\<open>__call__\<close> (\<open>call\<close>) and \<^verbatim>\<open>embed\<close>
  (\<open>embed_text\<close>). The calls of \<^verbatim>\<open>print\<close> and of \<^verbatim>\<open>logging\<close> are left out where
  their arguments cannot raise; those of \<^verbatim>\<open>finalize_docs\<close>, whose arguments can, are not.
  The TF-IDF weights are the exact values of their formulas, reals of HOL. The similarity
  of two rows, which the library computes in double precision, is a parameter of the
  model, and its rounding is written out where a claim depends on it.
\<close>

subsection \<open>Exceptions\<close>

datatype error =
    AssertionError
  | AttributeError
  | KeyError
  | IndexError
  | ValueError
  | ZeroDivisionError
  | FileNotFoundError

subsection \<open>Dictionaries and counters\<close>

text \<open>
  A Python \<^verbatim>\<open>dict\<close> keeps its keys in the order of their first insertion, and the
  vocabulary sort depends on that order, so a dictionary is an association list;
  \<^const>\<open>AList.update\<close> overwrites in place or appends, as \<^verbatim>\<open>d[k] = v\<close> does.
\<close>

type_synonym ('k, 'v) dict = "('k \<times> 'v) list"

definition has_key :: "('k, 'v) dict \<Rightarrow> 'k \<Rightarrow> bool" where
  "has_key d k = (map_of d k \<noteq> None)"

definition dict_of_pairs :: "('k \<times> 'v) list \<Rightarrow> ('k, 'v) dict" where
  \<comment> \<open>a dict comprehension: the pairs are stored one after the other\<close>
  "dict_of_pairs ps = foldl (\<lambda>d (k, v). AList.update k v d) [] ps"

text \<open>\<^verbatim>\<open>FreqDist\<close> is a \<^verbatim>\<open>Counter\<close>: a missing key reads as 0.\<close>

definition counter_get :: "('k, int) dict \<Rightarrow> 'k \<Rightarrow> int" where
  "counter_get d k = (case map_of d k of None \<Rightarrow> 0 | Some c \<Rightarrow> c)"

definition counter_add :: "('k, int) dict \<Rightarrow> 'k \<Rightarrow> int \<Rightarrow> ('k, int) dict" where
  \<comment> \<open>\<^verbatim>\<open>d[k] += n\<close>\<close>
  "counter_add d k n = AList.update k (counter_get d k + n) d"

definition FreqDist :: "'k list \<Rightarrow> ('k, int) dict" where
  \<comment> \<open>\<^verbatim>\<open>FreqDist(iterable)\<close>: every sample is counted once, in order\<close>
  "FreqDist samples = foldl (\<lambda>d w. counter_add d w 1) [] samples"

definition sorted_by_count :: "('k, int) dict \<Rightarrow> ('k \<times> int) list" where
  \<comment> \<open>\<^verbatim>\<open>sorted(d.items(), key=lambda x: x[1], reverse=True)\<close>: a stable sort,
      so items of equal count keep the order of the dictionary\<close>
  "sorted_by_count d = sort_key (\<lambda>x. - snd x) d"

definition freqdist_iter :: "('k, int) dict \<Rightarrow> 'k list" where
  \<comment> \<open>iterating a \<^verbatim>\<open>FreqDist\<close> yields its samples by decreasing count\<close>
  "freqdist_iter d = map fst (sorted_by_count d)"

definition freq :: "('k, int) dict \<Rightarrow> 'k \<Rightarrow> real" where
  \<comment> \<open>\<^verbatim>\<open>FreqDist.freq\<close>: the count over the number of samples, 0 when there is none\<close>
  "freq d k = (let n = sum_list (map snd d) in
                 if n = 0 then 0 else real_of_int (counter_get d k) / real_of_int n)"

definition py_slice_upto :: "int \<Rightarrow> 'a list \<Rightarrow> 'a list" where
  \<comment> \<open>\<^verbatim>\<open>xs[:n]\<close>; a negative \<open>n\<close> counts from the end\<close>
  "py_slice_upto n xs =
     (if 0 \<le> n then take (nat n) xs else take (length xs - nat (- n)) xs)"

subsection \<open>The object\<close>

definition kUNK :: string where
  "kUNK = ''<UNK>''"

record matrix =
  ncols :: nat
  rows :: "real list list"

text \<open>
  The fields are those \<^verbatim>\<open>__init__\<close> assigns, without the leading underscore
  (\<^verbatim>\<open>_docs\<close> and \<^verbatim>\<open>_labels\<close>, which no method reads, are left out), and
  \<open>questions\<close> and \<open>answers\<close>, which the base class's \<^verbatim>\<open>train\<close> and
  \<^verbatim>\<open>load_questions_and_answers\<close> assign. \<open>doc_freq\<close> stands for the attribute
  \<^verbatim>\<open>_doc_freq\<close> that \<^verbatim>\<open>inv_docfreq\<close> reads: no method of the class assigns it, and
  \<open>None\<close> is an object without that attribute. When it is there it is the table of the
  specification, from vocabulary ids to the number of documents in which the id occurs.
  The number of documents starts at 0 and is only incremented or set to a number of rows:
  it is a natural number.
\<close>

record engine =
  vocab_size :: int
  max_vocab_size :: int
  total_docs :: nat
  doc_vectors :: "matrix option"
  vocab_final :: bool
  docs_final :: bool
  vocab :: "(string, int) dict"
  unk_cutoff :: int
  tokenizer :: "string \<Rightarrow> string list"
  normalizer :: "string \<Rightarrow> string"
  filename :: string
  doc_counts :: "(string, int) dict"
  doc_freq :: "(int \<rightharpoonup> nat) option"
  questions :: "string list option"
  answers :: "string list option"

definition init ::
  "string \<Rightarrow> int \<Rightarrow> (string \<Rightarrow> string list) \<Rightarrow> (string \<Rightarrow> string) \<Rightarrow> int \<Rightarrow> engine" where
  "init fname max_size tokenize_function normalize_function cutoff =
     \<lparr> vocab_size = - 1,
       max_vocab_size = max_size,
       total_docs = 0,
       doc_vectors = None,
       vocab_final = False,
       docs_final = False,
       vocab = [],
       unk_cutoff = cutoff,
       tokenizer = tokenize_function,
       normalizer = normalize_function,
       filename = fname,
       doc_counts = [],
       doc_freq = None,
       questions = None,
       answers = None \<rparr>"

subsection \<open>Building the vocabulary\<close>

definition vocab_seen :: "engine \<Rightarrow> string \<Rightarrow> int \<Rightarrow> error + engine" where
  "vocab_seen e word count =
     (if vocab_final e then Inl AssertionError
      else Inr (e\<lparr>doc_counts := counter_add (doc_counts e) word count\<rparr>))"

definition finalize_vocab :: "engine \<Rightarrow> error + engine" where
  "finalize_vocab e =
     (let sorted_counts = sorted_by_count (doc_counts e);
          kept = filter (\<lambda>(i, (word, count)). unk_cutoff e \<le> count)
                   (enumerate 0 (py_slice_upto (max_vocab_size e) sorted_counts));
          vocab0 = dict_of_pairs (map (\<lambda>(i, (word, count)). (word, int i)) kept);
          vocab1 = AList.update kUNK (int (length vocab0)) vocab0;
          size1 = int (length vocab1)
      in if size1 < max_vocab_size e
         then Inr (e\<lparr>vocab := vocab1, vocab_size := size1, vocab_final := True\<rparr>)
         else Inl AssertionError)"

definition vocab_lookup :: "engine \<Rightarrow> string \<Rightarrow> error + int" where
  "vocab_lookup e word =
     (if \<not> vocab_final e then Inl AssertionError
      else case (if has_key (vocab e) word then map_of (vocab e) word
                 else map_of (vocab e) kUNK) of
             None \<Rightarrow> Inl KeyError
           | Some lookup \<Rightarrow>
               if 0 \<le> lookup \<and> lookup < vocab_size e then Inr lookup
               else Inl AssertionError)"

fun vocab_key_loop :: "(string \<times> int) list \<Rightarrow> int \<Rightarrow> string" where
  "vocab_key_loop [] word_id = kUNK"
| "vocab_key_loop ((word, i) # items) word_id =
     (if i = word_id then word else vocab_key_loop items word_id)"

definition vocab_key :: "engine \<Rightarrow> int \<Rightarrow> string" where
  "vocab_key e word_id = vocab_key_loop (vocab e) word_id"

subsection \<open>Tokens\<close>

datatype token = Word string | Id int

fun tokenize_loop :: "engine \<Rightarrow> string list \<Rightarrow> error + token list" where
  "tokenize_loop e [] = Inr []"
| "tokenize_loop e (ii # rest) =
     (let word = normalizer e ii in
      if vocab_final e then
        (case vocab_lookup e word of
           Inl err \<Rightarrow> Inl err
         | Inr i \<Rightarrow> (case tokenize_loop e rest of
                       Inl err \<Rightarrow> Inl err
                     | Inr ys \<Rightarrow> Inr (Id i # ys)))
      else
        (case tokenize_loop e rest of
           Inl err \<Rightarrow> Inl err
         | Inr ys \<Rightarrow> Inr (Word word # ys)))"

definition tokenize :: "engine \<Rightarrow> string \<Rightarrow> error + token list" where
  \<comment> \<open>the items the generator yields, or the exception that ends it\<close>
  "tokenize e sent = tokenize_loop e (tokenizer e sent)"

subsection \<open>Document frequencies\<close>

fun scan_loop :: "(string, int) dict \<Rightarrow> (string, int) dict \<Rightarrow> string list \<Rightarrow> (string, int) dict" where
  "scan_loop voc counts [] = counts"
| "scan_loop voc counts (word # ws) =
     scan_loop voc (counter_add counts (if has_key voc word then word else kUNK) 1) ws"

definition scan_document :: "engine \<Rightarrow> string \<Rightarrow> error + engine" where
  "scan_document e text =
     (if \<not> vocab_final e then Inl AssertionError
      else if docs_final e then Inl AssertionError
      else Inr (e\<lparr>doc_counts := scan_loop (vocab e) (doc_counts e) (tokenizer e text),
                  total_docs := total_docs e + 1\<rparr>))"

definition log10 :: "real \<Rightarrow> error + real" where
  \<comment> \<open>\<^verbatim>\<open>math.log\<close> raises \<^verbatim>\<open>ValueError\<close> outside its domain\<close>
  "log10 x = (if x \<le> 0 then Inl ValueError else Inr (ln x / ln 10))"

definition inv_df_value :: "nat \<Rightarrow> nat \<Rightarrow> error + real" where
  \<comment> \<open>\<^verbatim>\<open>log10(self._total_docs / (1 + doc_freq)) if doc_freq else 0\<close>\<close>
  "inv_df_value n_docs df =
     (if df \<noteq> 0 then log10 (real n_docs / (1 + real df)) else Inr 0)"

definition inv_docfreq :: "engine \<Rightarrow> int \<Rightarrow> error + real" where
  "inv_docfreq e word =
     (if \<not> docs_final e then Inl AssertionError
      else case doc_freq e of
             None \<Rightarrow> Inl AttributeError
           | Some table \<Rightarrow>
               inv_df_value (total_docs e) (case table word of None \<Rightarrow> 0 | Some d \<Rightarrow> d))"

definition global_freq :: "engine \<Rightarrow> int \<Rightarrow> error + real" where
  "global_freq e word =
     (let word_str = vocab_key e word;
          n = sum_list (map snd (doc_counts e))
      in if n = 0 then Inl ZeroDivisionError
         else Inr (real_of_int (counter_get (doc_counts e) word_str) / real_of_int n))"

fun finalize_docs_loop :: "engine \<Rightarrow> (string \<times> int) list \<Rightarrow> error option" where
  \<comment> \<open>over the keys with their ids, \<^verbatim>\<open>ww\<close> and \<^verbatim>\<open>self._vocab[ww]\<close>\<close>
  "finalize_docs_loop e [] = None"
| "finalize_docs_loop e ((ww, i) # items) =
     (case inv_docfreq e i of
        Inl err \<Rightarrow> Some err
      | Inr _ \<Rightarrow> (case global_freq e i of
                    Inl err \<Rightarrow> Some err
                  | Inr _ \<Rightarrow> finalize_docs_loop e items))"

definition finalize_docs :: "engine \<Rightarrow> error + engine" where
  \<comment> \<open>the arguments of the ten \<^verbatim>\<open>logging.debug\<close> calls are evaluated whatever the log level\<close>
  "finalize_docs e =
     (let e1 = e\<lparr>docs_final := True\<rparr> in
      case finalize_docs_loop e1 (take 10 (vocab e1)) of
        Some err \<Rightarrow> Inl err
      | None \<Rightarrow> Inr e1)"

subsection \<open>Embedding\<close>

fun embed_loop :: "engine \<Rightarrow> (string, int) dict \<Rightarrow> string list \<Rightarrow> real list \<Rightarrow> error + real list" where
  "embed_loop e doc_frequency [] vector = Inr vector"
| "embed_loop e doc_frequency (word # ws) vector =
     (case vocab_lookup e word of
        Inl err \<Rightarrow> Inl err
      | Inr index \<Rightarrow>
          (case inv_docfreq e index of
             Inl err \<Rightarrow> Inl err
           | Inr idf \<Rightarrow>
               embed_loop e doc_frequency ws
                 (vector[nat index := freq doc_frequency word * idf])))"

definition embed_text :: "engine \<Rightarrow> string \<Rightarrow> error + real list" where
  "embed_text e text =
     (if vocab_size e < 0 then Inl ValueError
      else
        let vector = replicate (nat (vocab_size e)) 0;
            doc_frequency = FreqDist (filter (has_key (vocab e)) (tokenizer e text))
        in embed_loop e doc_frequency (freqdist_iter doc_frequency) vector)"

subsection \<open>Training\<close>

definition guesser_train :: "engine \<Rightarrow> (string \<times> string) list \<Rightarrow> engine" where
  \<comment> \<open>Modelled from the spec: \<^verbatim>\<open>Guesser.train\<close> of the base class is not among the
      sources; it extracts the two parallel sequences, the texts and the labels, from the
      training data, here the pairs already.\<close>
  "guesser_train e training_data =
     e\<lparr>questions := Some (map fst training_data), answers := Some (map snd training_data)\<rparr>"

fun seen_loop :: "engine \<Rightarrow> string list \<Rightarrow> error + engine" where
  \<comment> \<open>\<^verbatim>\<open>for word in self.tokenize(question): self.vocab_seen(word)\<close>, the generator
      and its consumer step by step: \<^verbatim>\<open>vocab_seen\<close> fails its assertion on an id\<close>
  "seen_loop e [] = Inr e"
| "seen_loop e (ii # rest) =
     (let word = normalizer e ii in
      if vocab_final e then
        (case vocab_lookup e word of Inl err \<Rightarrow> Inl err | Inr i \<Rightarrow> Inl AssertionError)
      else
        (case vocab_seen e word 1 of Inl err \<Rightarrow> Inl err | Inr e1 \<Rightarrow> seen_loop e1 rest))"

fun vocab_pass :: "engine \<Rightarrow> string list \<Rightarrow> error + engine" where
  "vocab_pass e [] = Inr e"
| "vocab_pass e (q # qs) =
     (case seen_loop e (tokenizer e q) of Inl err \<Rightarrow> Inl err | Inr e1 \<Rightarrow> vocab_pass e1 qs)"

fun scan_pass :: "engine \<Rightarrow> string list \<Rightarrow> error + engine" where
  "scan_pass e [] = Inr e"
| "scan_pass e (q # qs) =
     (case scan_document e q of Inl err \<Rightarrow> Inl err | Inr e1 \<Rightarrow> scan_pass e1 qs)"

fun embed_rows :: "engine \<Rightarrow> string list \<Rightarrow> error + real list list" where
  "embed_rows e [] = Inr []"
| "embed_rows e (q # qs) =
     (case embed_text e q of
        Inl err \<Rightarrow> Inl err
      | Inr row \<Rightarrow> (case embed_rows e qs of Inl err \<Rightarrow> Inl err | Inr rs \<Rightarrow> Inr (row # rs)))"

definition train :: "engine \<Rightarrow> (string \<times> string) list \<Rightarrow> error + engine" where
  "train e training_data =
     (let e0 = guesser_train e training_data;
          qs = map fst training_data
      in case vocab_pass e0 qs of
           Inl err \<Rightarrow> Inl err
         | Inr e1 \<Rightarrow>
      (case finalize_vocab e1 of
           Inl err \<Rightarrow> Inl err
         | Inr e2 \<Rightarrow>
      (case scan_pass e2 qs of
           Inl err \<Rightarrow> Inl err
         | Inr e3 \<Rightarrow>
      (case finalize_docs e3 of
           Inl err \<Rightarrow> Inl err
         | Inr e4 \<Rightarrow>
             if total_docs e4 \<noteq> length qs then Inl AssertionError
             else (case embed_rows e4 qs of
                     Inl err \<Rightarrow> Inl err
                   | Inr rs \<Rightarrow>
                       Inr (e4\<lparr>doc_vectors :=
                                 Some \<lparr>ncols = nat (vocab_size e4), rows = rs\<rparr>\<rparr>))))))"

subsection \<open>Similarity search and the query interface\<close>

text \<open>
  \<^verbatim>\<open>cosine_similarity\<close> (scikit-learn) and \<^verbatim>\<open>argmax\<close> (NumPy) are library
  functions, not among the sources. The library computes the similarity of two rows in
  double precision; the number it returns for the rows \<open>x\<close> and \<open>y\<close> is a parameter
  of the model, \<open>score x y\<close>, so that what is proved of the search and of the query
  interface holds whatever the rounding is. The rest follows the documented behaviour of
  the two functions, which is what the specification asks of the similarity search: the
  library rejects (\<^verbatim>\<open>ValueError\<close>) an array without rows or without columns and arrays
  whose numbers of columns differ; without a second array it compares the first with
  itself. \<^verbatim>\<open>argmax\<close> returns the index of the first occurrence of the maximum and
  rejects an empty array.
\<close>

definition cosine_similarity ::
  "(real list \<Rightarrow> real list \<Rightarrow> real) \<Rightarrow> real list \<Rightarrow> matrix option \<Rightarrow> error + real list" where
  \<comment> \<open>\<^verbatim>\<open>cosine_similarity(x.reshape(1, -1), Y)[0]\<close>: the score of \<open>x\<close> with every row
      of \<open>Y\<close>; the library's check of its arguments raises the \<^verbatim>\<open>ValueError\<close>\<close>
  "cosine_similarity score x Y =
     (if x = [] then Inl ValueError
      else case Y of
             None \<Rightarrow> Inr [score x x]
           | Some m \<Rightarrow>
               if rows m = [] \<or> ncols m = 0 then Inl ValueError
               else if ncols m \<noteq> length x then Inl ValueError
               else Inr (map (score x) (rows m)))"

fun argmax_loop :: "nat \<Rightarrow> real \<Rightarrow> nat \<Rightarrow> real list \<Rightarrow> nat" where
  "argmax_loop best best_value i [] = best"
| "argmax_loop best best_value i (x # xs) =
     (if best_value < x then argmax_loop i x (Suc i) xs
      else argmax_loop best best_value (Suc i) xs)"

definition argmax :: "real list \<Rightarrow> error + nat" where
  \<comment> \<open>\<^verbatim>\<open>similarities.argmax()\<close>: NumPy documents that, when the maximum occurs several
      times, the index of its first occurrence is returned; an empty array is a
      \<^verbatim>\<open>ValueError\<close>\<close>
  "argmax xs = (case xs of [] \<Rightarrow> Inl ValueError | x # rest \<Rightarrow> Inr (argmax_loop 0 x 1 rest))"

definition find_best_match ::
  "(real list \<Rightarrow> real list \<Rightarrow> real) \<Rightarrow> real list \<Rightarrow> matrix option \<Rightarrow> error + nat \<times> real" where
  \<comment> \<open>lines 107 and 108 of \<^verbatim>\<open>__call__\<close>: the similarities and the index of the best\<close>
  "find_best_match score question_tfidf Y =
     (case cosine_similarity score question_tfidf Y of
        Inl err \<Rightarrow> Inl err
      | Inr similarities \<Rightarrow>
          (case argmax similarities of
             Inl err \<Rightarrow> Inl err
           | Inr best \<Rightarrow> Inr (best, similarities ! best)))"

record guess_result =
  question :: string
  guess :: string
  confidence :: real

definition call ::
  "(real list \<Rightarrow> real list \<Rightarrow> real) \<Rightarrow> engine \<Rightarrow> string \<Rightarrow> int \<Rightarrow> error + guess_result list" where
  \<comment> \<open>\<^verbatim>\<open>__call__\<close>\<close>
  "call score e text max_n_guesses =
     (if max_n_guesses \<noteq> 1 then Inl AssertionError
      else case embed_text e text of
        Inl err \<Rightarrow> Inl err
      | Inr question_tfidf \<Rightarrow>
          (case find_best_match score question_tfidf (doc_vectors e) of
             Inl err \<Rightarrow> Inl err
           | Inr (best, similarity) \<Rightarrow>
               (case questions e of
                  None \<Rightarrow> Inl AttributeError
                | Some qs \<Rightarrow>
                    if length qs \<le> best then Inl IndexError
                    else (case answers e of
                            None \<Rightarrow> Inl AttributeError
                          | Some ans \<Rightarrow>
                              if length ans \<le> best then Inl IndexError
                              else Inr [\<lparr> question = qs ! best, guess = ans ! best,
                                         confidence = similarity \<rparr>]))))"

subsection \<open>The similarity of two rows\<close>

text \<open>
  Two functions that can stand for the library's score. The first is the cosine similarity
  of the specification in exact arithmetic: the dot product over the product of the
  Euclidean norms, 0 when a norm is 0.
\<close>

definition dot :: "real list \<Rightarrow> real list \<Rightarrow> real" where
  "dot x y = sum_list (map (\<lambda>(a, b). a * b) (zip x y))"

definition l2_norm :: "real list \<Rightarrow> real" where
  "l2_norm x = sqrt (dot x x)"

definition cosine :: "real list \<Rightarrow> real list \<Rightarrow> real" where
  \<comment> \<open>Modelled from the spec: the dot product divided by the product of the Euclidean
      norms, 0 when either vector has zero norm.\<close>
  "cosine x y =
     (if l2_norm x = 0 \<or> l2_norm y = 0 then 0 else dot x y / (l2_norm x * l2_norm y))"

definition sign_faithful :: "(real list \<Rightarrow> real list \<Rightarrow> real) \<Rightarrow> bool" where
  \<comment> \<open>the score of two rows is not negative when no two corresponding entries have
      opposite signs\<close>
  "sign_faithful score =
     (\<forall>x y. (\<forall>j. j < length x \<and> j < length y \<longrightarrow> 0 \<le> x ! j * y ! j) \<longrightarrow> 0 \<le> score x y)"

text \<open>
  The second follows the steps of the library in double precision: every row is divided
  by its Euclidean norm (the square root of the sum of its squares; a norm below ten
  machine epsilons, in earlier releases a norm of 0, counts as zero and is replaced by 1),
  and the similarity is the dot product of the two results. Every operation gives the double nearest to the exact
  result, ties going to the even significand, and the sums are accumulated from left to
  right. A double has a significand of 53 bits; overflow and underflow are left out. The
  specification takes the rounding into account where it says that the similarity of a
  vector with itself is 1.0 within floating-point tolerance.
\<close>

definition round_half_even :: "real \<Rightarrow> int" where
  "round_half_even x =
     (let f = \<lfloor>x\<rfloor>; d = x - of_int f in
      if d < 1 / 2 then f else if 1 / 2 < d then f + 1 else if even f then f else f + 1)"

definition float64 :: "real \<Rightarrow> real" where
  \<comment> \<open>the double nearest to \<open>x\<close>: with \<open>2 ^ e \<le> \<bar>x\<bar> < 2 ^ (e + 1)\<close>, a multiple of
      \<open>2 ^ (e - 52)\<close>\<close>
  "float64 x =
     (if x = 0 then 0
      else let e = \<lfloor>log 2 \<bar>x\<bar>\<rfloor>; ulp = 2 powr (of_int e - 52)
           in sgn x * of_int (round_half_even (\<bar>x\<bar> / ulp)) * ulp)"

fun float64_sum :: "real \<Rightarrow> real list \<Rightarrow> real" where
  "float64_sum acc [] = acc"
| "float64_sum acc (p # ps) = float64_sum (float64 (acc + p)) ps"

definition float64_dot :: "real list \<Rightarrow> real list \<Rightarrow> real" where
  "float64_dot x y = float64_sum 0 (map (\<lambda>(a, b). float64 (a * b)) (zip x y))"

definition float64_normalize :: "real list \<Rightarrow> real list" where
  "float64_normalize x =
     (let norm = float64 (sqrt (float64_dot x x));
          scale = (if norm < 10 / 2 ^ 52 then 1 else norm)
      in map (\<lambda>a. float64 (a / scale)) x)"

definition float64_cosine :: "real list \<Rightarrow> real list \<Rightarrow> real" where
  "float64_cosine x y = float64_dot (float64_normalize x) (float64_normalize y)"

subsection \<open>Persistence\<close>

text \<open>
  The files are a map from paths to the objects pickled there; an object read back is the
  object written. The base class keeps the questions and the answers.
\<close>

datatype pickled =
    PVocab "(string, int) dict"
  | PMatrix "matrix option"
  | PCounts "(string, int) dict"

record files =
  pickles :: "string \<rightharpoonup> pickled"
  metadata :: "string \<rightharpoonup> string list \<times> string list"

definition save_questions_and_answers :: "engine \<Rightarrow> files \<Rightarrow> error + files" where
  \<comment> \<open>Modelled from the spec: the base class \<^verbatim>\<open>Guesser\<close> is not among the sources; it
      stores the two sequences of training document metadata under the engine's file name.\<close>
  "save_questions_and_answers e fs =
     (case questions e of
        None \<Rightarrow> Inl AttributeError
      | Some qs \<Rightarrow>
          (case answers e of
             None \<Rightarrow> Inl AttributeError
           | Some ans \<Rightarrow> Inr (fs\<lparr>metadata := (metadata fs)(filename e \<mapsto> (qs, ans))\<rparr>)))"

definition load_questions_and_answers :: "engine \<Rightarrow> files \<Rightarrow> error + engine" where
  \<comment> \<open>Modelled from the spec: the base class \<^verbatim>\<open>Guesser\<close> is not among the sources; it
      reads back the two sequences stored under the engine's file name.\<close>
  "load_questions_and_answers e fs =
     (case metadata fs (filename e) of
        None \<Rightarrow> Inl FileNotFoundError
      | Some (qs, ans) \<Rightarrow> Inr (e\<lparr>questions := Some qs, answers := Some ans\<rparr>))"

definition save :: "engine \<Rightarrow> files \<Rightarrow> error + files" where
  "save e fs =
     (let path = filename e in
      case save_questions_and_answers e fs of
        Inl err \<Rightarrow> Inl err
      | Inr fs1 \<Rightarrow>
          Inr (fs1\<lparr>pickles := (pickles fs1)
                 (path @ ''.vocab.pkl'' \<mapsto> PVocab (vocab e),
                  path @ ''.tfidf.pkl'' \<mapsto> PMatrix (doc_vectors e),
                  path @ ''.doccounts.pkl'' \<mapsto> PCounts (doc_counts e))\<rparr>))"

definition load :: "engine \<Rightarrow> files \<Rightarrow> error + engine" where
  \<comment> \<open>A file that holds an object of another kind than \<^verbatim>\<open>save\<close> writes there is outside
      the model, the record having no place for it: the model stops with \<^verbatim>\<open>ValueError\<close>.\<close>
  "load e fs =
     (case load_questions_and_answers e fs of
        Inl err \<Rightarrow> Inl err
      | Inr e1 \<Rightarrow>
          let path = filename e1 in
          (case pickles fs (path @ ''.vocab.pkl'') of
             None \<Rightarrow> Inl FileNotFoundError
           | Some (PVocab v) \<Rightarrow>
               let e2 = e1\<lparr>vocab := v, vocab_size := int (length v), vocab_final := True\<rparr> in
               (case pickles fs (path @ ''.tfidf.pkl'') of
                  None \<Rightarrow> Inl FileNotFoundError
                | Some (PMatrix dv) \<Rightarrow>
                    (case pickles fs (path @ ''.doccounts.pkl'') of
                       None \<Rightarrow> Inl FileNotFoundError
                     | Some (PCounts c) \<Rightarrow>
                         (case dv of
                            None \<Rightarrow> Inl AttributeError
                          | Some m \<Rightarrow>
                              let e3 = e2\<lparr>doc_vectors := Some m, doc_counts := c,
                                          total_docs := length (rows m), docs_final := True\<rparr>
                              in if vocab_size e3 = int (ncols m) then Inr e3
                                 else Inl AssertionError)
                     | Some _ \<Rightarrow> Inl ValueError)
                | Some _ \<Rightarrow> Inl ValueError)
           | Some _ \<Rightarrow> Inl ValueError))"

subsection \<open>Sample collaborators\<close>

text \<open>
  The tokenizer and the normalizer are arguments of the constructor. The examples below
  use a tokenizer that splits at spaces and the identity as normalizer.
\<close>

fun split_loop :: "string \<Rightarrow> string \<Rightarrow> string list" where
  "split_loop cur [] = (if cur = [] then [] else [cur])"
| "split_loop cur (c # cs) =
     (if c = CHR '' '' then (if cur = [] then split_loop [] cs else cur # split_loop [] cs)
      else split_loop (cur @ [c]) cs)"

definition str_split :: "string \<Rightarrow> string list" where
  "str_split s = split_loop [] s"

definition toy :: engine where
  "toy = init ''toy'' 50 str_split (\<lambda>w. w) 2"

section \<open>Scenarios\<close>

definition and_then :: "error + 'a \<Rightarrow> ('a \<Rightarrow> error + 'b) \<Rightarrow> error + 'b" where
  \<comment> \<open>one call after the other; the first exception ends the sequence\<close>
  "and_then r f = (case r of Inl err \<Rightarrow> Inl err | Inr x \<Rightarrow> f x)"

definition after_a :: engine where
  \<comment> \<open>\<^verbatim>\<open>vocab_seen("a", 2); finalize_vocab()\<close>\<close>
  "after_a = toy\<lparr>vocab := [(''a'', 0), (''<UNK>'', 1)], vocab_size := 2, vocab_final := True,
                 doc_counts := [(''a'', 2)]\<rparr>"

definition scanned_aa :: engine where
  \<comment> \<open>then \<^verbatim>\<open>scan_document("a a")\<close>\<close>
  "scanned_aa = after_a\<lparr>doc_counts := [(''a'', 4)], total_docs := 1\<rparr>"

definition after_unk :: engine where
  \<comment> \<open>\<^verbatim>\<open>vocab_seen("<UNK>", 2); finalize_vocab()\<close>\<close>
  "after_unk = toy\<lparr>vocab := [(''<UNK>'', 1)], vocab_size := 1, vocab_final := True,
                   doc_counts := [(''<UNK>'', 2)]\<rparr>"

definition after_unk_a :: engine where
  \<comment> \<open>\<^verbatim>\<open>vocab_seen("<UNK>", 2); vocab_seen("a", 2); finalize_vocab()\<close>\<close>
  "after_unk_a = toy\<lparr>vocab := [(''<UNK>'', 2), (''a'', 1)], vocab_size := 2, vocab_final := True,
                     doc_counts := [(''<UNK>'', 2), (''a'', 2)]\<rparr>"

definition single_doc :: engine where
  \<comment> \<open>what \<^verbatim>\<open>train\<close> returns for the one document \<open>a a\<close> with the answer \<open>A\<close> when
      the table of document frequencies is there (lemma \<open>train_single_doc\<close>)\<close>
  "single_doc = toy\<lparr>vocab := [(''a'', 0), (''<UNK>'', 1)], vocab_size := 2, vocab_final := True,
      doc_counts := [(''a'', 4)], total_docs := 1, docs_final := True,
      doc_freq := Some [0 \<mapsto> 1],
      doc_vectors := Some \<lparr>ncols = 2, rows = [[ln (1 / 2) / ln 10, 0]]\<rparr>,
      questions := Some [''a a''], answers := Some [''A'']\<rparr>"

definition twenty_documents :: "(string \<times> string) list" where
  \<comment> \<open>a corpus of twenty documents: one with the tokens \<open>c\<close>, \<open>a\<close> and \<open>b\<close>, and
      nineteen with the token \<open>z\<close>\<close>
  "twenty_documents = (''c c c c a a b b'', ''C'') # replicate 19 (''z'', ''Z'')"

definition toy_with_table :: engine where
  \<comment> \<open>the engine of the constructor with the document frequencies of that corpus: the
      id of \<open>z\<close> occurs in nineteen documents, those of \<open>c\<close>, \<open>a\<close> and \<open>b\<close> in one\<close>
  "toy_with_table = toy\<lparr>doc_freq := Some [0 \<mapsto> 19, 1 \<mapsto> 1, 2 \<mapsto> 1, 3 \<mapsto> 1]\<rparr>"

definition twenty_docs :: engine where
  \<comment> \<open>what \<^verbatim>\<open>train\<close> returns for that corpus (lemma \<open>train_twenty_documents\<close>): the
      inverse document frequencies are \<open>log10 (20/20) = 0\<close> and \<open>log10 (20/2) = 1\<close>\<close>
  "twenty_docs = toy\<lparr>vocab := [(''z'', 0), (''c'', 1), (''a'', 2), (''b'', 3), (''<UNK>'', 4)],
      vocab_size := 5, vocab_final := True,
      doc_counts := [(''c'', 8), (''a'', 4), (''b'', 4), (''z'', 38)],
      total_docs := 20, docs_final := True,
      doc_freq := Some [0 \<mapsto> 19, 1 \<mapsto> 1, 2 \<mapsto> 1, 3 \<mapsto> 1],
      doc_vectors := Some \<lparr>ncols = 5,
        rows = [0, 1 / 2, 1 / 4, 1 / 4, 0] # replicate 19 [0, 0, 0, 0, 0]\<rparr>,
      questions := Some (''c c c c a a b b'' # replicate 19 ''z''),
      answers := Some (''C'' # replicate 19 ''Z'')\<rparr>"

definition no_files :: files where
  "no_files = \<lparr>pickles = Map.empty, metadata = Map.empty\<rparr>"


definition single_doc_reloaded :: engine where
  \<comment> \<open>a new engine, built by the constructor with the same arguments, after
      \<^verbatim>\<open>load\<close> from those files\<close>
  "single_doc_reloaded =
     toy\<lparr>vocab := [(''a'', 0), (''<UNK>'', 1)], vocab_size := 2, vocab_final := True,
         doc_counts := [(''a'', 4)], total_docs := 1, docs_final := True,
         doc_vectors := Some \<lparr>ncols = 2, rows = [[ln (1 / 2) / ln 10, 0]]\<rparr>,
         questions := Some [''a a''], answers := Some [''A'']\<rparr>"

definition three_rows :: matrix where
  "three_rows = \<lparr>ncols = 2, rows = [[0, 1], [1, 0], [1, 0]]\<rparr>"

definition tie_rows :: matrix where
  \<comment> \<open>two rows at the same angle from the vector \<open>[1/4, 1/2]\<close>\<close>
  "tie_rows = \<lparr>ncols = 2, rows = [[1 / 2, 3 / 8], [0, 1]]\<rparr>"

definition trained :: "engine \<Rightarrow> bool" where
  \<comment> \<open>what \<^verbatim>\<open>train\<close> and \<^verbatim>\<open>load\<close> establish: both flags, the size of the vocabulary,
      the metadata, and a matrix with a row per document and a column per id\<close>
  "trained e =
     (vocab_final e \<and> docs_final e \<and> vocab_size e = int (length (vocab e))
      \<and> questions e \<noteq> None \<and> answers e \<noteq> None
      \<and> (case doc_vectors e of
            None \<Rightarrow> False
          | Some m \<Rightarrow> total_docs e = length (rows m) \<and> int (ncols m) = vocab_size e))"

subsection \<open>What the code computes, and what the specification asks for\<close>

definition specified_vocabulary :: "engine \<Rightarrow> (string, int) dict" where
  \<comment> \<open>the specification's words: the observed tokens by descending count, ties in the
      order first seen; at most \<open>max_vocab_size - 1\<close> of those whose count reaches the
      cutoff; the ids \<open>0..k-1\<close> in that order; the unknown token appended with the id \<open>k\<close>\<close>
  "specified_vocabulary e =
     (let eligible = filter (\<lambda>(w, c). unk_cutoff e \<le> c) (sorted_by_count (doc_counts e));
          kept = take (nat (max_vocab_size e - 1)) eligible
      in zip (map fst kept) (map int [0..<length kept]) @ [(kUNK, int (length kept))])"

definition in_vocabulary_tokens :: "engine \<Rightarrow> string \<Rightarrow> string list" where
  \<comment> \<open>the tokens of the text that are keys of the vocabulary\<close>
  "in_vocabulary_tokens e text = filter (has_key (vocab e)) (tokenizer e text)"

definition in_vocabulary_tf :: "engine \<Rightarrow> string \<Rightarrow> int \<Rightarrow> real" where
  \<comment> \<open>the occurrences of tokens with the id among the tokens of the vocabulary, over the
      number of those tokens\<close>
  "in_vocabulary_tf e text i =
     (let kept = in_vocabulary_tokens e text in
      if kept = [] then 0
      else real (length (filter (\<lambda>w. map_of (vocab e) w = Some i) kept)) / real (length kept))"

definition idf_or_zero :: "engine \<Rightarrow> int \<Rightarrow> real" where
  "idf_or_zero e i = (case inv_docfreq e i of Inr x \<Rightarrow> x | Inl _ \<Rightarrow> 0)"

definition specified_id :: "engine \<Rightarrow> string \<Rightarrow> int" where
  \<comment> \<open>the specification's words: every token is mapped to its vocabulary id, a token
      outside the vocabulary to the unknown id\<close>
  "specified_id e w =
     (case map_of (vocab e) w of
        Some i \<Rightarrow> i
      | None \<Rightarrow> (case map_of (vocab e) kUNK of Some u \<Rightarrow> u | None \<Rightarrow> - 1))"

definition specified_embedding :: "engine \<Rightarrow> string \<Rightarrow> real list" where
  \<comment> \<open>the specification's words: at every id present, its occurrences over the number of
      tokens of the document, times its inverse document frequency; 0 elsewhere\<close>
  "specified_embedding e text =
     (let ids = map (specified_id e) (tokenizer e text) in
      map (\<lambda>j. if int j \<in> set ids
                then real (count_list ids (int j)) / real (length ids) * idf_or_zero e (int j)
                else 0)
          [0..<nat (vocab_size e)])"

section \<open>Properties\<close>

lemmas run_defs =
  toy_def init_def and_then_def vocab_seen_def finalize_vocab_def counter_add_def
  counter_get_def sorted_by_count_def py_slice_upto_def dict_of_pairs_def kUNK_def
  vocab_lookup_def has_key_def scan_document_def str_split_def enumerate_eq_zip
  tokenize_def inv_docfreq_def finalize_docs_def embed_text_def FreqDist_def
  freqdist_iter_def freq_def inv_df_value_def log10_def call_def find_best_match_def
  cosine_similarity_def argmax_def cosine_def l2_norm_def dot_def numeral_2_eq_2

subsection \<open>Counters\<close>

lemma counter_get_add:
  "counter_get (counter_add d k n) k' = (if k' = k then counter_get d k + n else counter_get d k')"
  by (simp add: counter_get_def counter_add_def update_conv')

lemma keys_counter_add: "fst ` set (counter_add d k n) = insert k (fst ` set d)"
  by (simp add: counter_add_def dom_update)

lemma distinct_counter_add:
  "distinct (map fst d) \<Longrightarrow> distinct (map fst (counter_add d k n))"
  by (simp add: counter_add_def distinct_update)

lemma sum_update:
  "sum_list (map snd (AList.update k v d)) = sum_list (map snd d) - counter_get d k + v"
  by (induction d) (auto simp: counter_get_def)

lemma sum_counter_add: "sum_list (map snd (counter_add d k n)) = sum_list (map snd d) + n"
  by (simp add: counter_add_def sum_update)

lemma foldl_counter_get:
  "counter_get (foldl (\<lambda>d w. counter_add d w 1) d0 xs) k = counter_get d0 k + int (count_list xs k)"
  by (induction xs arbitrary: d0) (auto simp: counter_get_add)

lemma foldl_keys:
  "fst ` set (foldl (\<lambda>d w. counter_add d w 1) d0 xs) = fst ` set d0 \<union> set xs"
  by (induction xs arbitrary: d0) (auto simp: keys_counter_add)

lemma foldl_distinct:
  "distinct (map fst d0) \<Longrightarrow> distinct (map fst (foldl (\<lambda>d w. counter_add d w 1) d0 xs))"
  by (induction xs arbitrary: d0) (auto simp: distinct_counter_add)

lemma foldl_sum:
  "sum_list (map snd (foldl (\<lambda>d w. counter_add d w 1) d0 xs)) = sum_list (map snd d0) + int (length xs)"
  by (induction xs arbitrary: d0) (auto simp: sum_counter_add)

lemma counter_get_empty: "counter_get [] k = 0"
  by (simp add: counter_get_def)

lemma FreqDist_get: "counter_get (FreqDist xs) k = int (count_list xs k)"
  by (simp add: FreqDist_def foldl_counter_get counter_get_empty)

lemma FreqDist_keys: "fst ` set (FreqDist xs) = set xs"
  by (simp add: FreqDist_def foldl_keys)

lemma FreqDist_distinct: "distinct (map fst (FreqDist xs))"
  by (simp add: FreqDist_def foldl_distinct)

lemma FreqDist_sum: "sum_list (map snd (FreqDist xs)) = int (length xs)"
  by (simp add: FreqDist_def foldl_sum)

lemma freq_FreqDist:
  "freq (FreqDist xs) w = (if xs = [] then 0 else real (count_list xs w) / real (length xs))"
  by (simp add: freq_def FreqDist_sum FreqDist_get)

lemma freq_FreqDist_nonneg: "0 \<le> freq (FreqDist xs) w"
  by (simp add: freq_FreqDist)

lemma set_freqdist_iter: "set (freqdist_iter d) = fst ` set d"
  by (simp add: freqdist_iter_def sorted_by_count_def)

lemma distinct_freqdist_iter: "distinct (map fst d) \<Longrightarrow> distinct (freqdist_iter d)"
  by (simp add: freqdist_iter_def sorted_by_count_def distinct_map)

subsection \<open>The vocabulary\<close>

lemma update_new_key:
  "k \<notin> fst ` set al \<Longrightarrow> AList.update k v al = al @ [(k, v)]"
  by (induction al) auto

lemma foldl_update_distinct:
  "distinct (map fst (acc @ ps)) \<Longrightarrow>
   foldl (\<lambda>d (k, v). AList.update k v d) acc ps = acc @ ps"
proof (induction ps arbitrary: acc)
  case Nil
  show ?case by simp
next
  case (Cons p ps)
  obtain k v where p: "p = (k, v)" by (cases p)
  have "k \<notin> fst ` set acc" using Cons.prems p by auto
  then have "AList.update k v acc = acc @ [(k, v)]" by (rule update_new_key)
  moreover have "distinct (map fst ((acc @ [(k, v)]) @ ps))" using Cons.prems p by simp
  ultimately show ?case using Cons.IH [of "acc @ [(k, v)]"] p by simp
qed

lemma dict_of_pairs_distinct: "distinct (map fst ps) \<Longrightarrow> dict_of_pairs ps = ps"
  using foldl_update_distinct [of "[]" ps] by (simp add: dict_of_pairs_def)

lemma filter_enumerate_desc:
  fixes xs :: "('a \<times> int) list"
  assumes "sorted (map (\<lambda>x. - snd x) xs)"
  shows "filter (\<lambda>(i, (w, c)). cutoff \<le> c) (enumerate n xs)
       = enumerate n (filter (\<lambda>(w, c). cutoff \<le> c) xs)"
  using assms
proof (induction xs arbitrary: n)
  case Nil
  show ?case by simp
next
  case (Cons x xs)
  obtain w c where x: "x = (w, c)" by (cases x)
  have le: "\<forall>y \<in> set xs. snd y \<le> c" using Cons.prems x by auto
  have sorted: "sorted (map (\<lambda>x. - snd x) xs)" using Cons.prems by simp
  show ?case
  proof (cases "cutoff \<le> c")
    case True
    then show ?thesis using Cons.IH [OF sorted] x by simp
  next
    case False
    with le have none: "\<forall>y \<in> set xs. \<not> cutoff \<le> snd y" by force
    then have "filter (\<lambda>(w, c). cutoff \<le> c) xs = []"
      by (auto simp: filter_empty_conv)
    moreover have "\<forall>p \<in> set (enumerate (Suc n) xs). snd p \<in> set xs"
      by (metis imageI list.set_map map_snd_enumerate)
    then have "filter (\<lambda>(i, (w, c)). cutoff \<le> c) (enumerate (Suc n) xs) = []"
      using none by (fastforce simp: filter_empty_conv)
    ultimately show ?thesis using False x by simp
  qed
qed

lemma filter_take_desc:
  fixes xs :: "('a \<times> int) list"
  assumes "sorted (map (\<lambda>x. - snd x) xs)"
  shows "filter (\<lambda>(w, c). cutoff \<le> c) (take m xs) = take m (filter (\<lambda>(w, c). cutoff \<le> c) xs)"
  using assms
proof (induction xs arbitrary: m)
  case Nil
  show ?case by simp
next
  case (Cons x xs)
  obtain w c where x: "x = (w, c)" by (cases x)
  have le: "\<forall>y \<in> set xs. snd y \<le> c" using Cons.prems x by auto
  have sorted: "sorted (map (\<lambda>x. - snd x) xs)" using Cons.prems by simp
  show ?case
  proof (cases m)
    case 0
    then show ?thesis by simp
  next
    case (Suc m')
    show ?thesis
    proof (cases "cutoff \<le> c")
      case True
      then show ?thesis using Cons.IH [OF sorted] x Suc by simp
    next
      case False
      with le have none: "\<forall>y \<in> set xs. \<not> cutoff \<le> snd y" by force
      then have "filter (\<lambda>(w, c). cutoff \<le> c) xs = []"
        by (auto simp: filter_empty_conv)
      moreover have "filter (\<lambda>(w, c). cutoff \<le> c) (take m' xs) = []"
        using none set_take_subset [of m' xs] by (fastforce simp: filter_empty_conv)
      ultimately show ?thesis using False x Suc by simp
    qed
  qed
qed

lemma sorted_by_count_desc: "sorted (map (\<lambda>x. - snd x) (sorted_by_count d))"
  by (simp add: sorted_by_count_def)

lemma sorted_by_count_stable:
  "filter (\<lambda>x. snd x = c) (sorted_by_count d) = filter (\<lambda>x. snd x = c) d"
  using sort_key_stable [of "\<lambda>x. - snd x" "- c" d] by (simp add: sorted_by_count_def)

lemma set_sorted_by_count: "set (sorted_by_count d) = set d"
  by (simp add: sorted_by_count_def)

lemma distinct_sorted_by_count:
  "distinct (map fst d) \<Longrightarrow> distinct (map fst (sorted_by_count d))"
  by (simp add: sorted_by_count_def distinct_map)

lemma enumerate_ids:
  "map (\<lambda>(i, (w, c)). (w, int i)) (enumerate 0 xs) = zip (map fst xs) (map int [0..<length xs])"
  by (simp add: enumerate_eq_zip zip_map1 zip_map2 map_zip_map2 zip_commute [of "[0..<length xs]"]
      split_def)

lemma vocab_seen_keeps_dict:
  assumes "vocab_seen e word n = Inr e'" and "distinct (map fst (doc_counts e))"
  shows "distinct (map fst (doc_counts e'))
     \<and> fst ` set (doc_counts e') = insert word (fst ` set (doc_counts e))"
proof -
  from assms(1) have "doc_counts e' = counter_add (doc_counts e) word n"
    by (auto simp: vocab_seen_def split: if_splits)
  then show ?thesis using assms(2) by (simp add: distinct_counter_add keys_counter_add)
qed

text \<open>
  When the unknown token's string is not among the observed tokens, \<^verbatim>\<open>finalize_vocab\<close>
  builds the vocabulary the specification describes and fails in the cases it describes.
  The slice of the code keeps up to \<open>max_vocab_size\<close> tokens where the specification
  keeps \<open>max_vocab_size - 1\<close>; the results differ only where both fail the size check.
\<close>

lemma finalize_vocab_refines:
  assumes d: "distinct (map fst (doc_counts e))" and u: "kUNK \<notin> fst ` set (doc_counts e)"
  shows "finalize_vocab e =
     (if int (length (specified_vocabulary e)) < max_vocab_size e
      then Inr (e\<lparr>vocab := specified_vocabulary e,
                  vocab_size := int (length (specified_vocabulary e)),
                  vocab_final := True\<rparr>)
      else Inl AssertionError)"
proof (cases "max_vocab_size e \<le> 0")
  case True
  have "0 < int (length (AList.update kUNK v al))" for v and al :: "(string, int) dict"
    by simp
  then have "\<not> int (length (AList.update kUNK v al)) < max_vocab_size e"
    for v and al :: "(string, int) dict"
    using True by (simp add: not_less order_trans [OF True less_imp_le])
  moreover have "\<not> int (length (specified_vocabulary e)) < max_vocab_size e"
    using True by (simp add: specified_vocabulary_def Let_def)
  ultimately show ?thesis by (simp add: finalize_vocab_def Let_def)
next
  case False
  let ?S = "sorted_by_count (doc_counts e)"
  let ?E = "filter (\<lambda>(w, c). unk_cutoff e \<le> c) ?S"
  let ?m = "nat (max_vocab_size e)"
  let ?K' = "take ?m ?E"
  let ?K = "take (nat (max_vocab_size e - 1)) ?E"
  let ?V = "\<lambda>K :: (string \<times> int) list. zip (map fst K) (map int [0..<length K])"
  have sliced: "py_slice_upto (max_vocab_size e) ?S = take ?m ?S"
    using False by (simp add: py_slice_upto_def)
  have "sorted (take ?m (map (\<lambda>x. - snd x) ?S))"
    by (intro sorted_wrt_take sorted_by_count_desc)
  then have sortedT: "sorted (map (\<lambda>x. - snd x) (take ?m ?S))"
    by (simp add: take_map)
  have kept: "filter (\<lambda>(i, (w, c)). unk_cutoff e \<le> c) (enumerate 0 (take ?m ?S)) = enumerate 0 ?K'"
  proof -
    have "filter (\<lambda>(i, (w, c)). unk_cutoff e \<le> c) (enumerate 0 (take ?m ?S))
        = enumerate 0 (filter (\<lambda>(w, c). unk_cutoff e \<le> c) (take ?m ?S))"
      by (rule filter_enumerate_desc [OF sortedT])
    also have "filter (\<lambda>(w, c). unk_cutoff e \<le> c) (take ?m ?S) = ?K'"
      by (rule filter_take_desc [OF sorted_by_count_desc])
    finally show ?thesis .
  qed
  have dS: "distinct (map fst ?S)" using d by (rule distinct_sorted_by_count)
  then have "distinct (map fst ?E)" by (rule distinct_map_filter)
  then have "distinct (take ?m (map fst ?E))" by (rule distinct_take)
  then have dK: "distinct (map fst ?K')" by (simp add: take_map)
  have keys: "map fst (?V ?K') = map fst ?K'" by simp
  have vocab0: "dict_of_pairs (?V ?K') = ?V ?K'"
    by (rule dict_of_pairs_distinct) (simp only: keys dK)
  have "set ?K' \<subseteq> set (doc_counts e)"
    using set_take_subset [of ?m ?E] by (auto simp: set_sorted_by_count)
  then have "kUNK \<notin> fst ` set ?K'" using u by auto
  moreover have "fst ` set (?V ?K') = fst ` set ?K'" using keys by (metis set_map)
  ultimately have unk: "kUNK \<notin> fst ` set (?V ?K')" by simp
  have vocab1: "AList.update kUNK v (?V ?K') = ?V ?K' @ [(kUNK, v)]" for v
    using unk by (rule update_new_key)
  have code: "finalize_vocab e =
     (if int (length ?K') + 1 < max_vocab_size e
      then Inr (e\<lparr>vocab := ?V ?K' @ [(kUNK, int (length ?K'))],
                  vocab_size := int (length ?K') + 1, vocab_final := True\<rparr>)
      else Inl AssertionError)"
  proof -
    have pairs: "dict_of_pairs (map (\<lambda>(i, (w, c)). (w, int i)) (enumerate 0 ?K')) = ?V ?K'"
      by (simp only: enumerate_ids vocab0)
    have len: "length (?V ?K') = length ?K'" by simp
    have "finalize_vocab e =
       (if int (length (?V ?K' @ [(kUNK, int (length ?K'))])) < max_vocab_size e
        then Inr (e\<lparr>vocab := ?V ?K' @ [(kUNK, int (length ?K'))],
                    vocab_size := int (length (?V ?K' @ [(kUNK, int (length ?K'))])),
                    vocab_final := True\<rparr>)
        else Inl AssertionError)"
      by (simp only: finalize_vocab_def Let_def sliced kept pairs vocab1 len)
    also have "int (length (?V ?K' @ [(kUNK, int (length ?K'))])) = int (length ?K') + 1"
      by (simp only: length_append len) simp
    finally show ?thesis .
  qed
  have spec: "specified_vocabulary e = ?V ?K @ [(kUNK, int (length ?K))]"
    by (simp add: specified_vocabulary_def Let_def)
  show ?thesis
  proof (cases "int (length ?E) + 1 < max_vocab_size e")
    case True
    then have "?K' = ?E" "?K = ?E" by simp_all
    then show ?thesis using True by (simp only: code spec) simp
  next
    case no: False
    then have "\<not> int (length ?K') + 1 < max_vocab_size e"
      and "\<not> int (length ?K) + 1 < max_vocab_size e"
      using False by (simp_all add: min_def)
    then show ?thesis by (simp only: code spec) simp
  qed
qed

text \<open>
  Claim C4 says that \<^verbatim>\<open>finalize_vocab\<close> gives the kept tokens the ids \<open>0..k-1\<close> in
  sorted order and appends the unknown token as the final id. When the unknown token's
  own string has been observed and is kept, the assignment of the unknown id overwrites
  the id the token had: with \<open><UNK>\<close> and \<open>a\<close> seen twice each, no token has id 0,
  \<open>a\<close> has id 1, the unknown token has id 2 and the vocabulary size is 2.
\<close>

theorem finalize_vocab_unknown_observed:
  "and_then (and_then (vocab_seen toy ''<UNK>'' 2) (\<lambda>e. vocab_seen e ''a'' 2)) finalize_vocab
     = Inr after_unk_a
   \<and> vocab after_unk_a = [(''<UNK>'', 2), (''a'', 1)] \<and> vocab_size after_unk_a = 2"
  by (simp add: run_defs after_unk_a_def)

lemma specified_vocabulary_ids:
  assumes "(w, i) \<in> set (specified_vocabulary e)"
  shows "0 \<le> i \<and> i < int (length (specified_vocabulary e))"
proof -
  let ?K = "take (nat (max_vocab_size e - 1))
              (filter (\<lambda>(w, c). unk_cutoff e \<le> c) (sorted_by_count (doc_counts e)))"
  from assms have "(w, i) \<in> set (zip (map fst ?K) (map int [0..<length ?K])) \<or> i = int (length ?K)"
    by (auto simp: specified_vocabulary_def Let_def)
  then show ?thesis
  proof
    assume "(w, i) \<in> set (zip (map fst ?K) (map int [0..<length ?K]))"
    then have "i \<in> set (map int [0..<length ?K])" by (rule set_zip_rightD)
    then show ?thesis by (auto simp: specified_vocabulary_def Let_def)
  next
    assume "i = int (length ?K)"
    then show ?thesis by (simp add: specified_vocabulary_def Let_def)
  qed
qed

lemma specified_vocabulary_unknown: "kUNK \<in> fst ` set (specified_vocabulary e)"
  by (simp add: specified_vocabulary_def Let_def)

text \<open>
  When the unknown token's string is not among the observed tokens, the lookup in the
  vocabulary that \<^verbatim>\<open>finalize_vocab\<close> has built returns for every token: the id of the
  token when it is a key of the vocabulary, the unknown id otherwise, and an id below the
  vocabulary size in both cases.
\<close>

lemma vocab_lookup_total:
  assumes "distinct (map fst (doc_counts e))" and "kUNK \<notin> fst ` set (doc_counts e)"
    and "finalize_vocab e = Inr e'"
  shows "\<exists>i. vocab_lookup e' w = Inr i \<and> 0 \<le> i \<and> i < vocab_size e'
     \<and> (if has_key (vocab e') w then map_of (vocab e') w = Some i
         else map_of (vocab e') kUNK = Some i)"
proof -
  from assms have e': "vocab e' = specified_vocabulary e"
    "vocab_size e' = int (length (specified_vocabulary e))" "vocab_final e'"
    by (auto simp: finalize_vocab_refines split: if_splits)
  have "\<exists>i. (if has_key (vocab e') w then map_of (vocab e') w
             else map_of (vocab e') kUNK) = Some i"
  proof (cases "has_key (vocab e') w")
    case True
    then show ?thesis by (auto simp: has_key_def)
  next
    case False
    have "map_of (vocab e') kUNK \<noteq> None"
      using specified_vocabulary_unknown [of e] e'(1) by (simp add: map_of_eq_None_iff)
    then show ?thesis using False by auto
  qed
  then obtain i where i: "(if has_key (vocab e') w then map_of (vocab e') w
                           else map_of (vocab e') kUNK) = Some i" by blast
  then have "(w, i) \<in> set (specified_vocabulary e) \<or> (kUNK, i) \<in> set (specified_vocabulary e)"
    using e'(1) by (auto split: if_splits dest: map_of_SomeD)
  then have "0 \<le> i \<and> i < vocab_size e'"
    using specified_vocabulary_ids e'(2) by auto
  then show ?thesis using i e'(3) by (auto simp: vocab_lookup_def split: if_splits)
qed

text \<open>
  Claim C5 says that after the vocabulary is final \<^verbatim>\<open>vocab_lookup\<close> never fails and
  returns an id below the vocabulary size. After \<^verbatim>\<open>vocab_seen("<UNK>", 2)\<close> and
  \<^verbatim>\<open>finalize_vocab()\<close> the vocabulary is \<open>{<UNK>: 1}\<close> of size 1, and the lookup of a
  token that is not in it, or of the unknown token itself, fails the bounds assertion.
\<close>

theorem vocab_lookup_out_of_bounds:
  "and_then (vocab_seen toy ''<UNK>'' 2) finalize_vocab = Inr after_unk
   \<and> vocab after_unk = [(''<UNK>'', 1)] \<and> vocab_size after_unk = 1 \<and> vocab_final after_unk
   \<and> vocab_lookup after_unk ''cat'' = Inl AssertionError
   \<and> vocab_lookup after_unk ''<UNK>'' = Inl AssertionError"
  by (simp add: run_defs after_unk_def)

subsection \<open>Tokens\<close>

text \<open>
  Before the vocabulary is final \<^verbatim>\<open>tokenize\<close> yields the normalized string of every raw
  token. After, it yields what \<^verbatim>\<open>vocab_lookup\<close> returns for the normalized string, as long
  as the lookups return; they all do when the unknown token's string was not observed.
\<close>

lemma tokenize_before_final:
  assumes "\<not> vocab_final e"
  shows "tokenize e sent = Inr (map (\<lambda>ii. Word (normalizer e ii)) (tokenizer e sent))"
proof -
  have "tokenize_loop e ts = Inr (map (\<lambda>ii. Word (normalizer e ii)) ts)" for ts
    using assms by (induction ts) (simp_all add: Let_def)
  then show ?thesis by (simp add: tokenize_def)
qed

lemma tokenize_loop_final:
  assumes "vocab_final e" and "map (\<lambda>ii. vocab_lookup e (normalizer e ii)) ts = map Inr ids"
  shows "tokenize_loop e ts = Inr (map Id ids)"
  using assms(2)
proof (induction ts arbitrary: ids)
  case Nil
  then show ?case by simp
next
  case (Cons ii ts)
  then obtain i rest where ids: "ids = i # rest" by (cases ids) auto
  with Cons.prems have "vocab_lookup e (normalizer e ii) = Inr i"
    and "map (\<lambda>ii. vocab_lookup e (normalizer e ii)) ts = map Inr rest" by simp_all
  then show ?case using Cons.IH [of rest] assms(1) ids by (simp add: Let_def)
qed

lemma tokenize_after_finalize:
  assumes "distinct (map fst (doc_counts e))" and "kUNK \<notin> fst ` set (doc_counts e)"
    and "finalize_vocab e = Inr e'"
  shows "\<exists>ids. tokenize e' sent = Inr (map Id ids)
     \<and> length ids = length (tokenizer e' sent)
     \<and> map (\<lambda>ii. vocab_lookup e' (normalizer e' ii)) (tokenizer e' sent) = map Inr ids
     \<and> (\<forall>i \<in> set ids. 0 \<le> i \<and> i < vocab_size e')"
proof -
  from assms have final: "vocab_final e'"
    by (auto simp: finalize_vocab_refines split: if_splits)
  have "\<exists>ids. map (\<lambda>ii. vocab_lookup e' (normalizer e' ii)) ts = map Inr ids
           \<and> (\<forall>i \<in> set ids. 0 \<le> i \<and> i < vocab_size e')" for ts
  proof (induction ts)
    case Nil
    show ?case by simp
  next
    case (Cons ii ts)
    then obtain ids where ids: "map (\<lambda>ii. vocab_lookup e' (normalizer e' ii)) ts = map Inr ids"
      "\<forall>i \<in> set ids. 0 \<le> i \<and> i < vocab_size e'" by blast
    from vocab_lookup_total [OF assms, of "normalizer e' ii"] obtain i where
      "vocab_lookup e' (normalizer e' ii) = Inr i" "0 \<le> i" "i < vocab_size e'" by blast
    then show ?case using ids by (intro exI [of _ "i # ids"]) simp
  qed
  then obtain ids where ids:
    "map (\<lambda>ii. vocab_lookup e' (normalizer e' ii)) (tokenizer e' sent) = map Inr ids"
    "\<forall>i \<in> set ids. 0 \<le> i \<and> i < vocab_size e'" by blast
  have "length ids = length (tokenizer e' sent)" using ids(1) by (metis length_map)
  moreover have "tokenize e' sent = Inr (map Id ids)"
    using tokenize_loop_final [OF final ids(1)] by (simp add: tokenize_def)
  ultimately show ?thesis using ids by blast
qed

text \<open>
  Claim C10 says that \<^verbatim>\<open>tokenize\<close> yields one item for every raw token: the normalized
  string before the vocabulary is final, the vocabulary id after, the unknown id for a
  token that is not in the vocabulary. After \<^verbatim>\<open>vocab_seen("<UNK>", 2)\<close> and
  \<^verbatim>\<open>finalize_vocab()\<close> the sentence \<open>the cat\<close> has two raw tokens and the generator
  raises at the first.
\<close>

theorem tokenize_raises_after_finalize:
  "and_then (vocab_seen toy ''<UNK>'' 2) finalize_vocab = Inr after_unk
   \<and> vocab_final after_unk \<and> tokenizer after_unk ''the cat'' = [''the'', ''cat'']
   \<and> tokenize after_unk ''the cat'' = Inl AssertionError"
  by (simp add: run_defs after_unk_def)

subsection \<open>Document frequencies\<close>

lemma scan_loop_counts:
  "counter_get (scan_loop voc counts ws) k
     = counter_get counts k
       + int (count_list (map (\<lambda>word. if has_key voc word then word else kUNK) ws) k)"
  by (induction ws arbitrary: counts) (auto simp: counter_get_add)

lemma scan_document_counts:
  assumes "scan_document e doc = Inr e'"
  shows "counter_get (doc_counts e') k
     = counter_get (doc_counts e) k
       + int (count_list (map (\<lambda>word. if has_key (vocab e) word then word else kUNK)
                            (tokenizer e doc)) k)"
  using assms by (auto simp: scan_document_def scan_loop_counts split: if_splits)

lemma scan_document_total_docs:
  "scan_document e text = Inr e' \<Longrightarrow> total_docs e' = total_docs e + 1"
  by (auto simp: scan_document_def split: if_splits)

text \<open>
  Claim C1 says that \<^verbatim>\<open>scan_document\<close> adds exactly one to the document-frequency
  counter of every distinct token id of the document, however often the token occurs, and
  one to the number of documents. The code adds one for every occurrence (lemma
  \<open>scan_document_counts\<close>), to the counter of the token string in the table of global
  counts: after \<^verbatim>\<open>vocab_seen("a", 2)\<close> and
  \<^verbatim>\<open>finalize_vocab()\<close> the counter of \<open>a\<close> is 2, and scanning the one document
  \<open>a a\<close> makes it 4. The number of documents goes from 0 to 1.
\<close>

theorem scan_document_counts_occurrences:
  "and_then (vocab_seen toy ''a'' 2) finalize_vocab = Inr after_a
   \<and> counter_get (doc_counts after_a) ''a'' = 2 \<and> total_docs after_a = 0
   \<and> scan_document after_a ''a a'' = Inr scanned_aa
   \<and> counter_get (doc_counts scanned_aa) ''a'' = 4 \<and> total_docs scanned_aa = 1"
  by (simp add: run_defs after_a_def scanned_aa_def)

subsection \<open>Inverse document frequency\<close>

lemma inv_df_value_zero: "inv_df_value n 0 = Inr 0"
  by (simp add: inv_df_value_def)

lemma inv_df_value_pos:
  assumes "0 < n" and "0 < d"
  shows "inv_df_value n d = Inr (ln (real n / (1 + real d)) / ln 10)"
  using assms by (simp add: inv_df_value_def log10_def field_simps)

lemma inv_docfreq_without_table:
  "docs_final e \<Longrightarrow> doc_freq e = None \<Longrightarrow> inv_docfreq e word = Inl AttributeError"
  by (simp add: inv_docfreq_def)

lemma inv_docfreq_with_table:
  "docs_final e \<Longrightarrow> doc_freq e = Some table \<Longrightarrow>
   inv_docfreq e word =
     inv_df_value (total_docs e) (case table word of None \<Rightarrow> 0 | Some d \<Rightarrow> d)"
  by (simp add: inv_docfreq_def)

text \<open>
  No method assigns the attribute that \<^verbatim>\<open>inv_docfreq\<close> reads: an engine that the
  constructor has built stays without it, and \<^verbatim>\<open>finalize_docs\<close> raises on it as soon as
  the vocabulary has an entry, which it has once \<^verbatim>\<open>finalize_vocab\<close> has returned.
\<close>

lemma init_without_table: "doc_freq (init fname max_size tokenize_fn normalize_fn cutoff) = None"
  by (simp add: init_def)

lemma vocab_seen_keeps_table: "vocab_seen e word n = Inr e' \<Longrightarrow> doc_freq e' = doc_freq e"
  by (auto simp: vocab_seen_def split: if_splits)

lemma finalize_vocab_keeps_table:
  "finalize_vocab e = Inr e' \<Longrightarrow> doc_freq e' = doc_freq e \<and> vocab e' \<noteq> []"
  by (auto simp: finalize_vocab_def Let_def split: if_splits)

lemma scan_document_keeps_table:
  "scan_document e doc = Inr e' \<Longrightarrow> doc_freq e' = doc_freq e \<and> vocab e' = vocab e"
  by (auto simp: scan_document_def split: if_splits)

lemma load_keeps_table: "load e fs = Inr e' \<Longrightarrow> doc_freq e' = doc_freq e"
  by (auto simp: load_def load_questions_and_answers_def Let_def
      split: option.splits pickled.splits if_splits prod.splits)

lemma finalize_docs_without_table:
  assumes "doc_freq e = None" and "vocab e \<noteq> []"
  shows "finalize_docs e = Inl AttributeError"
proof -
  obtain ww i items where v: "vocab e = (ww, i) # items" using assms(2) by (cases "vocab e") auto
  then show ?thesis using assms(1) by (simp add: finalize_docs_def Let_def inv_docfreq_def)
qed

text \<open>
  Claim C2 says that, once the document frequencies are final, \<^verbatim>\<open>inv_docfreq\<close>
  returns 0.0 for an id of document frequency zero, the logarithm otherwise, and never
  raises. The method reads the attribute \<^verbatim>\<open>_doc_freq\<close>, which no method assigns: on the
  engine that has seen and scanned the document \<open>a a\<close>, \<^verbatim>\<open>finalize_docs\<close> itself
  ends with \<^verbatim>\<open>AttributeError\<close>, raised by its call of \<^verbatim>\<open>inv_docfreq\<close>, and so does
  \<^verbatim>\<open>inv_docfreq\<close> on the state it leaves, for the id of \<open>a\<close> and for the unknown id.
\<close>

theorem inv_docfreq_attribute_error:
  "and_then (and_then (vocab_seen toy ''a'' 2) finalize_vocab) (\<lambda>e. scan_document e ''a a'')
     = Inr scanned_aa
   \<and> doc_freq scanned_aa = None
   \<and> finalize_docs scanned_aa = Inl AttributeError
   \<and> inv_docfreq (scanned_aa\<lparr>docs_final := True\<rparr>) 0 = Inl AttributeError
   \<and> inv_docfreq (scanned_aa\<lparr>docs_final := True\<rparr>) 1 = Inl AttributeError"
  by (simp add: run_defs after_a_def scanned_aa_def)

lemma inv_df_value_pos_antimono:
  assumes "0 < n" and "0 < d1" and "d1 \<le> d2"
  shows "\<exists>x1 x2. inv_df_value n d1 = Inr x1 \<and> inv_df_value n d2 = Inr x2 \<and> x2 \<le> x1"
proof -
  have d2: "0 < d2" using assms by simp
  have "real n / (1 + real d2) \<le> real n / (1 + real d1)"
    using assms by (simp add: frac_le)
  moreover have "0 < real n / (1 + real d2)" using assms by simp
  ultimately have "ln (real n / (1 + real d2)) \<le> ln (real n / (1 + real d1))"
    by (simp only: ln_mono)
  then have "ln (real n / (1 + real d2)) / ln 10 \<le> ln (real n / (1 + real d1)) / ln 10"
    by (simp add: divide_right_mono)
  then show ?thesis
    using inv_df_value_pos [OF assms(1) assms(2)] inv_df_value_pos [OF assms(1) d2]
    by simp
qed

lemma inv_docfreq_antimono:
  assumes "docs_final e" and "doc_freq e = Some table" and "0 < total_docs e"
    and "table w1 = Some d1" and "table w2 = Some d2" and "0 < d1" and "d1 \<le> d2"
  shows "\<exists>x1 x2. inv_docfreq e w1 = Inr x1 \<and> inv_docfreq e w2 = Inr x2 \<and> x2 \<le> x1"
  using inv_df_value_pos_antimono [OF assms(3) assms(6) assms(7)] assms(1,2,4,5)
  by (simp add: inv_docfreq_with_table)

text \<open>
  Claim C7 says that, the number of documents fixed, the inverse document frequency does
  not increase when the document frequency increases, over all document frequencies from
  0 on, and that it is 0.0 at document frequency 0. With 10 documents it is 0 at document
  frequency 0 and \<open>log10 5 > 0\<close> at document frequency 1.
\<close>

theorem inv_df_value_increases_from_zero:
  "inv_df_value 10 0 = Inr 0 \<and> inv_df_value 10 1 = Inr (ln 5 / ln 10) \<and> (0::real) < ln 5 / ln 10"
  by (simp add: inv_df_value_def log10_def)

text \<open>
  Claim C7 as amended: with at least one document, the inverse document frequency does
  not increase when the document frequency increases over the positive document
  frequencies, and it is 0 at document frequency 0.
\<close>

theorem inv_df_value_antimono:
  assumes "0 < n" and "0 < d1" and "d1 \<le> d2"
  shows "inv_df_value n 0 = Inr 0 \<and>
         (\<exists>x1 x2. inv_df_value n d1 = Inr x1 \<and> inv_df_value n d2 = Inr x2 \<and> x2 \<le> x1)"
  using inv_df_value_pos_antimono [OF assms] by (simp add: inv_df_value_zero)

theorem inv_df_value_antimono_witness:
  "(0::nat) < 10 \<and> (0::nat) < 1 \<and> (1::nat) \<le> 4 \<and> inv_df_value 10 0 = Inr 0 \<and>
   (\<exists>x1 x2. inv_df_value 10 1 = Inr x1 \<and> inv_df_value 10 4 = Inr x2 \<and> x2 \<le> x1)"
  using inv_df_value_antimono [of 10 1 4] by simp

subsection \<open>The embedding\<close>

lemma inv_df_value_returns: "0 < n \<Longrightarrow> \<exists>x. inv_df_value n d = Inr x"
  by (cases "d = 0") (simp_all add: inv_df_value_zero inv_df_value_pos)

lemma inv_docfreq_returns:
  "docs_final e \<Longrightarrow> doc_freq e = Some table \<Longrightarrow> 0 < total_docs e \<Longrightarrow>
   \<exists>x. inv_docfreq e i = Inr x"
  by (simp add: inv_docfreq_with_table inv_df_value_returns)

lemma distinct_snd_unique:
  "distinct (map snd xs) \<Longrightarrow> (a, i) \<in> set xs \<Longrightarrow> (b, i) \<in> set xs \<Longrightarrow> a = b"
  by (induction xs) force+

lemma vocab_lookup_range: "vocab_lookup e w = Inr i \<Longrightarrow> 0 \<le> i \<and> i < vocab_size e"
  by (auto simp: vocab_lookup_def split: if_splits option.splits)

lemma embed_loop_result:
  assumes fin: "vocab_final e" "docs_final e"
    and table: "doc_freq e = Some table" and docs: "0 < total_docs e"
    and ids: "distinct (map snd (vocab e))" "\<forall>i \<in> snd ` set (vocab e). 0 \<le> i \<and> i < vocab_size e"
    and ws: "\<forall>w \<in> set ws. has_key (vocab e) w" "distinct ws"
  shows "\<exists>v. embed_loop e fd ws vec = Inr v \<and> length v = length vec \<and>
     (\<forall>j < length vec. v ! j =
        (case find (\<lambda>w. map_of (vocab e) w = Some (int j)) ws of
           None \<Rightarrow> vec ! j
         | Some w \<Rightarrow> freq fd w * (case inv_docfreq e (int j) of Inr x \<Rightarrow> x | Inl _ \<Rightarrow> 0)))"
  using ws
proof (induction ws arbitrary: vec)
  case Nil
  show ?case by simp
next
  case (Cons w ws)
  from Cons.prems obtain i where i: "map_of (vocab e) w = Some i"
    by (auto simp: has_key_def)
  then have mem: "(w, i) \<in> set (vocab e)" by (rule map_of_SomeD)
  then have range: "0 \<le> i" "i < vocab_size e" using ids(2) by force+
  have look: "vocab_lookup e w = Inr i"
    using fin i range Cons.prems by (simp add: vocab_lookup_def)
  obtain x where x: "inv_docfreq e i = Inr x"
    using inv_docfreq_returns [OF fin(2) table docs] by blast
  let ?vec = "vec[nat i := freq fd w * x]"
  from Cons.IH [of ?vec] Cons.prems obtain v where
    v: "embed_loop e fd ws ?vec = Inr v" "length v = length ?vec"
      "\<forall>j < length ?vec. v ! j =
        (case find (\<lambda>w. map_of (vocab e) w = Some (int j)) ws of
           None \<Rightarrow> ?vec ! j
         | Some w \<Rightarrow> freq fd w * (case inv_docfreq e (int j) of Inr x \<Rightarrow> x | Inl _ \<Rightarrow> 0))"
    by auto
  have none: "find (\<lambda>w'. map_of (vocab e) w' = Some i) ws = None"
  proof -
    have uniq: "map_of (vocab e) w' = Some i \<Longrightarrow> w' = w" for w'
    proof -
      assume "map_of (vocab e) w' = Some i"
      then have "(w', i) \<in> set (vocab e)" by (simp add: map_of_SomeD)
      with mem ids(1) show "w' = w" by (blast intro: distinct_snd_unique)
    qed
    have "w \<notin> set ws" using Cons.prems by simp
    then show ?thesis using uniq by (fastforce simp: find_None_iff)
  qed
  have "\<forall>j < length vec. v ! j =
        (case find (\<lambda>w. map_of (vocab e) w = Some (int j)) (w # ws) of
           None \<Rightarrow> vec ! j
         | Some w \<Rightarrow> freq fd w * (case inv_docfreq e (int j) of Inr x \<Rightarrow> x | Inl _ \<Rightarrow> 0))"
  proof (intro allI impI)
    fix j assume j: "j < length vec"
    show "v ! j = (case find (\<lambda>w. map_of (vocab e) w = Some (int j)) (w # ws) of
           None \<Rightarrow> vec ! j
         | Some w \<Rightarrow> freq fd w * (case inv_docfreq e (int j) of Inr x \<Rightarrow> x | Inl _ \<Rightarrow> 0))"
    proof (cases "int j = i")
      case True
      then have "nat i = j" by simp
      then show ?thesis using v(3) j none i x True by (simp split: option.splits)
    next
      case False
      then have "nat i \<noteq> j" using range by auto
      then show ?thesis using v(3) j i False by (simp split: option.splits)
    qed
  qed
  then show ?case using look x v by simp
qed

text \<open>
  Claim C3 says that \<^verbatim>\<open>embed\<close> maps every token of the document to its vocabulary id,
  divides the occurrences of an id by the number of tokens of the document, and writes the
  product with the inverse document frequency at every id present. The code counts only the
  tokens that are keys of the vocabulary: a token outside it is dropped, it does not count for
  the unknown id and it does not count in the denominator. On the engine trained on the one
  document \<open>a a\<close>, with its table of document frequencies, the text \<open>a b\<close> gets the weight \<open>log10 (1/2)\<close> at the id of \<open>a\<close>,
  where the specification asks for half of it.
\<close>

theorem embed_text_drops_unknown_tokens:
  "embed_text single_doc ''a b'' = Inr [ln (1 / 2) / ln 10, 0]
   \<and> specified_embedding single_doc ''a b'' = [1 / 2 * (ln (1 / 2) / ln 10), 0]
   \<and> ln (1 / 2) / ln 10 \<noteq> 1 / 2 * (ln (1 / 2) / ln (10::real))"
  by (simp add: run_defs single_doc_def specified_embedding_def specified_id_def idf_or_zero_def
      upt_rec ln_div)

text \<open>
  Claim C3 as amended: on an engine with final vocabulary and final document frequencies,
  whose vocabulary has distinct ids below the vocabulary size, and on which
  \<^verbatim>\<open>inv_docfreq\<close> returns (the table of document frequencies exists and a document has
  been scanned), \<^verbatim>\<open>embed\<close> returns a vector of length \<open>vocab_size\<close> whose entry at
  every id is the inverse document frequency of the id times the term frequency of the id
  among the tokens that are in the vocabulary: the occurrences of tokens with that id over
  the number of token occurrences that are in the vocabulary, 0 when there is none.
\<close>

theorem embed_text_in_vocabulary:
  assumes fin: "vocab_final e" "docs_final e" and size: "0 \<le> vocab_size e"
    and table: "doc_freq e = Some table" and docs: "0 < total_docs e"
    and ids: "distinct (map snd (vocab e))" "\<forall>i \<in> snd ` set (vocab e). 0 \<le> i \<and> i < vocab_size e"
  shows "\<exists>v. embed_text e text = Inr v \<and> length v = nat (vocab_size e) \<and>
     (\<forall>j < length v. \<exists>idf. inv_docfreq e (int j) = Inr idf
         \<and> v ! j = in_vocabulary_tf e text (int j) * idf)"
proof -
  let ?kept = "in_vocabulary_tokens e text"
  let ?fd = "FreqDist ?kept"
  let ?ws = "freqdist_iter ?fd"
  let ?vec = "replicate (nat (vocab_size e)) (0::real)"
  have set_ws: "set ?ws = set ?kept"
    by (simp add: set_freqdist_iter FreqDist_keys)
  have "\<forall>w \<in> set ?kept. has_key (vocab e) w"
    by (simp add: in_vocabulary_tokens_def)
  then have ws: "\<forall>w \<in> set ?ws. has_key (vocab e) w" "distinct ?ws"
    by (simp_all only: set_ws distinct_freqdist_iter FreqDist_distinct)
  from embed_loop_result [OF fin table docs ids ws, of ?fd ?vec] obtain v where
    v: "embed_loop e ?fd ?ws ?vec = Inr v" "length v = length ?vec"
      "\<forall>j < length ?vec. v ! j =
        (case find (\<lambda>w. map_of (vocab e) w = Some (int j)) ?ws of
           None \<Rightarrow> ?vec ! j
         | Some w \<Rightarrow> freq ?fd w * (case inv_docfreq e (int j) of Inr x \<Rightarrow> x | Inl _ \<Rightarrow> 0))"
    by blast
  have emb: "embed_text e text = Inr v"
    using size v(1) by (simp add: embed_text_def in_vocabulary_tokens_def)
  have "\<exists>idf. inv_docfreq e (int j) = Inr idf \<and> v ! j = in_vocabulary_tf e text (int j) * idf"
    if j: "j < length v" for j
  proof -
    obtain idf where idf: "inv_docfreq e (int j) = Inr idf"
      using inv_docfreq_returns [OF fin(2) table docs] by blast
    let ?P = "\<lambda>w. map_of (vocab e) w = Some (int j)"
    have vj: "v ! j = (case find ?P ?ws of None \<Rightarrow> 0 | Some w \<Rightarrow> freq ?fd w * idf)"
      using v(2,3) j idf by (simp split: option.splits)
    show ?thesis
    proof (cases "find ?P ?ws")
      case None
      then have "filter ?P ?kept = []"
        using set_ws by (auto simp: find_None_iff filter_empty_conv)
      then have "in_vocabulary_tf e text (int j) = 0"
        by (simp add: in_vocabulary_tf_def Let_def)
      then show ?thesis using vj None idf by simp
    next
      case (Some w)
      then have w: "w \<in> set ?kept" "?P w"
        using set_ws by (auto simp: find_Some_iff)
      then have mem: "(w, int j) \<in> set (vocab e)" by (simp add: map_of_SomeD)
      have uniq: "?P w' \<longleftrightarrow> w = w'" for w'
      proof
        assume "?P w'"
        then have "(w', int j) \<in> set (vocab e)" by (simp add: map_of_SomeD)
        with mem ids(1) show "w = w'" by (blast intro: distinct_snd_unique)
      next
        assume "w = w'"
        then show "?P w'" using w by simp
      qed
      have ne: "?kept \<noteq> []" using w by auto
      have "count_list ?kept w = length (filter ?P ?kept)"
        by (simp add: count_list_eq_length_filter uniq)
      then have "in_vocabulary_tf e text (int j) = freq ?fd w"
        using ne by (simp add: in_vocabulary_tf_def Let_def freq_FreqDist)
      then show ?thesis using vj Some idf by simp
    qed
  qed
  then show ?thesis using emb v(2) by auto
qed

theorem embed_text_in_vocabulary_witness:
  "vocab_final single_doc \<and> docs_final single_doc \<and> 0 \<le> vocab_size single_doc
   \<and> doc_freq single_doc = Some [0 \<mapsto> 1] \<and> 0 < total_docs single_doc
   \<and> distinct (map snd (vocab single_doc))
   \<and> list_all (\<lambda>i. 0 \<le> i \<and> i < vocab_size single_doc) (map snd (vocab single_doc))
   \<and> (\<exists>v. embed_text single_doc ''a b'' = Inr v \<and> length v = nat (vocab_size single_doc) \<and>
        (\<forall>j < length v. \<exists>idf. inv_docfreq single_doc (int j) = Inr idf
            \<and> v ! j = in_vocabulary_tf single_doc ''a b'' (int j) * idf))"
  using embed_text_in_vocabulary [of single_doc "[0 \<mapsto> 1]" "''a b''"]
  by (simp add: single_doc_def toy_def init_def)

subsection \<open>Similarity search\<close>

lemma argmax_loop_first_max:
  assumes "best < length pre" and "best_value = pre ! best"
    and "\<forall>j < length pre. pre ! j \<le> best_value"
    and "\<forall>j < best. pre ! j < best_value"
  shows "argmax_loop best best_value (length pre) xs < length (pre @ xs)
    \<and> (\<forall>j < length (pre @ xs).
          (pre @ xs) ! j \<le> (pre @ xs) ! argmax_loop best best_value (length pre) xs)
    \<and> (\<forall>j < argmax_loop best best_value (length pre) xs.
          (pre @ xs) ! j < (pre @ xs) ! argmax_loop best best_value (length pre) xs)"
  using assms
proof (induction xs arbitrary: pre best best_value)
  case Nil
  then show ?case by simp
next
  case (Cons x xs)
  show ?case
  proof (cases "best_value < x")
    case True
    have a: "length pre < length (pre @ [x])" by simp
    have b: "x = (pre @ [x]) ! length pre" by simp
    have c: "\<forall>j < length (pre @ [x]). (pre @ [x]) ! j \<le> x"
      using Cons.prems True by (auto simp: nth_append less_Suc_eq)
    have d: "\<forall>j < length pre. (pre @ [x]) ! j < x"
      using Cons.prems True by (auto simp: nth_append)
    from Cons.IH [OF a b c d] True show ?thesis by simp
  next
    case False
    have a: "best < length (pre @ [x])" using Cons.prems by simp
    have b: "best_value = (pre @ [x]) ! best" using Cons.prems by (simp add: nth_append)
    have c: "\<forall>j < length (pre @ [x]). (pre @ [x]) ! j \<le> best_value"
      using Cons.prems False by (auto simp: nth_append less_Suc_eq)
    have d: "\<forall>j < best. (pre @ [x]) ! j < best_value"
      using Cons.prems by (auto simp: nth_append)
    from Cons.IH [OF a b c d] False show ?thesis by simp
  qed
qed

lemma argmax_first_max:
  assumes "xs \<noteq> []"
  shows "\<exists>best. argmax xs = Inr best \<and> best < length xs
     \<and> (\<forall>j < length xs. xs ! j \<le> xs ! best) \<and> (\<forall>j < best. xs ! j < xs ! best)"
proof -
  obtain x rest where xs: "xs = x # rest" using assms by (cases xs) auto
  have "argmax_loop 0 x (length [x]) rest < length ([x] @ rest)
    \<and> (\<forall>j < length ([x] @ rest).
          ([x] @ rest) ! j \<le> ([x] @ rest) ! argmax_loop 0 x (length [x]) rest)
    \<and> (\<forall>j < argmax_loop 0 x (length [x]) rest.
          ([x] @ rest) ! j < ([x] @ rest) ! argmax_loop 0 x (length [x]) rest)"
    by (rule argmax_loop_first_max) auto
  then show ?thesis by (simp add: xs argmax_def)
qed

lemma find_best_match_some:
  assumes "q \<noteq> []" and "rows m \<noteq> []" and "ncols m = length q"
  shows "\<exists>best. find_best_match score q (Some m) = Inr (best, score q (rows m ! best))
       \<and> best < length (rows m)
       \<and> (\<forall>j < length (rows m). score q (rows m ! j) \<le> score q (rows m ! best))
       \<and> (\<forall>j < best. score q (rows m ! j) < score q (rows m ! best))"
proof -
  let ?sims = "map (score q) (rows m)"
  have sims: "cosine_similarity score q (Some m) = Inr ?sims"
    using assms by (simp add: cosine_similarity_def)
  have "?sims \<noteq> []" using assms by simp
  from argmax_first_max [OF this] obtain best where
    best: "argmax ?sims = Inr best" "best < length ?sims"
      "\<forall>j < length ?sims. ?sims ! j \<le> ?sims ! best" "\<forall>j < best. ?sims ! j < ?sims ! best"
    by blast
  have "find_best_match score q (Some m) = Inr (best, score q (rows m ! best))"
    using sims best by (simp add: find_best_match_def)
  then show ?thesis using best by auto
qed

lemma find_best_match_no_rows:
  "rows m = [] \<Longrightarrow> find_best_match score q (Some m) = Inl ValueError"
  by (simp add: find_best_match_def cosine_similarity_def)

lemma call_no_rows:
  "doc_vectors e = Some m \<Longrightarrow> rows m = [] \<Longrightarrow> \<exists>err. call score e doc n = Inl err"
  by (simp add: call_def find_best_match_no_rows split: sum.splits)

lemma call_no_rows_error:
  "doc_vectors e = Some m \<Longrightarrow> rows m = [] \<Longrightarrow> embed_text e doc = Inr q
   \<Longrightarrow> call score e doc 1 = Inl ValueError"
  by (simp add: call_def find_best_match_no_rows)

lemma call_best_row:
  assumes "embed_text e doc = Inr q" and "q \<noteq> []"
    and "doc_vectors e = Some m" and "rows m \<noteq> []" and "ncols m = length q"
    and "questions e = Some qs" and "length qs = length (rows m)"
    and "answers e = Some ans" and "length ans = length (rows m)"
  shows "\<exists>best. call score e doc 1
            = Inr [\<lparr>question = qs ! best, guess = ans ! best,
                    confidence = score q (rows m ! best)\<rparr>]
       \<and> best < length (rows m)
       \<and> (\<forall>j < length (rows m). score q (rows m ! j) \<le> score q (rows m ! best))
       \<and> (\<forall>j < best. score q (rows m ! j) < score q (rows m ! best))"
proof -
  from find_best_match_some [OF assms(2,4,5)] obtain best where
    best: "find_best_match score q (Some m) = Inr (best, score q (rows m ! best))"
      "best < length (rows m)"
      "\<forall>j < length (rows m). score q (rows m ! j) \<le> score q (rows m ! best)"
      "\<forall>j < best. score q (rows m ! j) < score q (rows m ! best)"
    by blast
  have "call score e doc 1
          = Inr [\<lparr>question = qs ! best, guess = ans ! best,
                  confidence = score q (rows m ! best)\<rparr>]"
    using assms best(1,2) by (simp add: call_def)
  then show ?thesis using best by blast
qed

text \<open>
  Claim C8: the similarity search returns the index of the row of maximum similarity,
  the lowest such index when several rows reach the maximum, and it fails when the
  document matrix has no rows. The similarities are the scores that the library returns,
  whatever their rounding: a row is preferred to an earlier one only when its score is
  greater. The failure is the \<^verbatim>\<open>ValueError\<close> of the library; the class defines no
  exception of its own. The query vector and the matrix have the same, positive, number
  of columns.
\<close>

theorem find_best_match_first_maximum:
  assumes "q \<noteq> []" and "rows m \<noteq> []" and "ncols m = length q"
  shows "find_best_match score q (Some (m\<lparr>rows := []\<rparr>)) = Inl ValueError \<and>
    (\<exists>best. find_best_match score q (Some m) = Inr (best, score q (rows m ! best))
       \<and> best < length (rows m)
       \<and> (\<forall>j < length (rows m). score q (rows m ! j) \<le> score q (rows m ! best))
       \<and> (\<forall>j < best. score q (rows m ! j) < score q (rows m ! best)))"
  using find_best_match_some [OF assms] by (simp add: find_best_match_no_rows)

lemma find_best_match_tie: "find_best_match cosine [1, 0] (Some three_rows) = Inr (1, 1)"
  by (simp add: three_rows_def find_best_match_def cosine_similarity_def argmax_def
      cosine_def l2_norm_def dot_def)

theorem find_best_match_first_maximum_witness:
  "[1, 0] \<noteq> ([] :: real list) \<and> rows three_rows \<noteq> [] \<and> ncols three_rows = length [1 :: real, 0]
   \<and> find_best_match cosine [1, 0] (Some (three_rows\<lparr>rows := []\<rparr>)) = Inl ValueError
   \<and> find_best_match cosine [1, 0] (Some three_rows) = Inr (1, 1)
   \<and> (\<exists>best. find_best_match cosine [1, 0] (Some three_rows)
                = Inr (best, cosine [1, 0] (rows three_rows ! best))
       \<and> best < length (rows three_rows)
       \<and> (\<forall>j < length (rows three_rows).
             cosine [1, 0] (rows three_rows ! j) \<le> cosine [1, 0] (rows three_rows ! best))
       \<and> (\<forall>j < best. cosine [1, 0] (rows three_rows ! j)
                        < cosine [1, 0] (rows three_rows ! best)))"
proof -
  have h: "[1, 0] \<noteq> ([] :: real list)" "rows three_rows \<noteq> []"
    "ncols three_rows = length [1 :: real, 0]"
    by (simp_all add: three_rows_def)
  from find_best_match_first_maximum [where score = cosine, OF h] h find_best_match_tie
  show ?thesis by blast
qed

subsection \<open>Cosine similarity of embeddings\<close>

lemma dot_Cons: "dot (a # x) (b # y) = a * b + dot x y"
  by (simp add: dot_def)

lemma dot_Nil: "dot [] y = 0" "dot x [] = 0"
  by (simp_all add: dot_def)

lemma dot_self_nonneg: "0 \<le> dot x x"
  by (induction x) (simp_all add: dot_Nil dot_Cons)

lemma cauchy_schwarz: "(dot x y)\<^sup>2 \<le> dot x x * dot y y"
proof (induction x arbitrary: y)
  case Nil
  show ?case by (simp add: dot_Nil)
next
  case (Cons a x)
  show ?case
  proof (cases y)
    case Nil
    then show ?thesis by (simp add: dot_Nil)
  next
    case (Cons b y')
    let ?D = "dot x y'" and ?A = "dot x x" and ?B = "dot y' y'"
    have ih: "?D\<^sup>2 \<le> ?A * ?B" by (rule Cons.IH)
    have A: "0 \<le> ?A" and B: "0 \<le> ?B" by (rule dot_self_nonneg)+
    have "(2 * a * b * ?D)\<^sup>2 = 4 * (a\<^sup>2 * b\<^sup>2) * ?D\<^sup>2"
      by (simp add: power2_eq_square)
    also have "\<dots> \<le> 4 * (a\<^sup>2 * b\<^sup>2) * (?A * ?B)"
      using ih by (intro mult_left_mono) auto
    also have "\<dots> \<le> (a\<^sup>2 * ?B + b\<^sup>2 * ?A)\<^sup>2"
      using zero_le_power2 [of "a\<^sup>2 * ?B - b\<^sup>2 * ?A"]
      by (simp add: power2_eq_square algebra_simps)
    finally have sq: "(2 * a * b * ?D)\<^sup>2 \<le> (a\<^sup>2 * ?B + b\<^sup>2 * ?A)\<^sup>2" .
    have "0 \<le> a\<^sup>2 * ?B + b\<^sup>2 * ?A" using A B by simp
    with sq have "2 * a * b * ?D \<le> a\<^sup>2 * ?B + b\<^sup>2 * ?A"
      by (rule power2_le_imp_le)
    then show ?thesis
      using ih Cons by (simp add: dot_Cons power2_eq_square algebra_simps)
  qed
qed

lemma l2_norm_nonneg: "0 \<le> l2_norm x"
  by (simp add: l2_norm_def dot_self_nonneg)

lemma cosine_le_one: "cosine x y \<le> 1"
proof (cases "l2_norm x = 0 \<or> l2_norm y = 0")
  case True
  then show ?thesis by (simp add: cosine_def)
next
  case False
  have nn: "0 \<le> l2_norm x * l2_norm y" by (simp add: l2_norm_nonneg)
  have "(dot x y)\<^sup>2 \<le> (l2_norm x * l2_norm y)\<^sup>2"
    using cauchy_schwarz [of x y] by (simp add: l2_norm_def power_mult_distrib dot_self_nonneg)
  then have "dot x y \<le> l2_norm x * l2_norm y" using nn by (rule power2_le_imp_le)
  moreover have "0 < l2_norm x * l2_norm y" using False nn by (simp add: less_le)
  ultimately show ?thesis using False by (simp add: cosine_def)
qed

lemma dot_nonneg:
  assumes "\<forall>j. j < length x \<and> j < length y \<longrightarrow> 0 \<le> x ! j * y ! j"
  shows "0 \<le> dot x y"
  unfolding dot_def
proof (rule sum_list_nonneg)
  fix p assume "p \<in> set (map (\<lambda>(a, b). a * b) (zip x y))"
  then obtain a b where ab: "(a, b) \<in> set (zip x y)" "p = a * b" by auto
  then obtain j where "j < length x" "j < length y" "a = x ! j" "b = y ! j"
    by (auto simp: in_set_zip)
  then show "0 \<le> p" using assms ab by simp
qed

lemma cosine_nonneg: "0 \<le> dot x y \<Longrightarrow> 0 \<le> cosine x y"
  by (simp add: cosine_def l2_norm_nonneg)

lemma embed_loop_sign:
  assumes "\<forall>w. 0 \<le> freq fd w"
    and "\<forall>j < length vec. \<exists>c. 0 \<le> c \<and> vec ! j = c * idf_or_zero e (int j)"
    and "embed_loop e fd ws vec = Inr v"
  shows "length v = length vec \<and> (\<forall>j < length v. \<exists>c. 0 \<le> c \<and> v ! j = c * idf_or_zero e (int j))"
  using assms(2,3)
proof (induction ws arbitrary: vec)
  case Nil
  then show ?case by simp
next
  case (Cons w ws)
  from Cons.prems(2) obtain i x where
    i: "vocab_lookup e w = Inr i" and x: "inv_docfreq e i = Inr x" and
    rest: "embed_loop e fd ws (vec[nat i := freq fd w * x]) = Inr v"
    by (auto split: sum.splits)
  have i0: "0 \<le> i" using vocab_lookup_range [OF i] by simp
  have "\<forall>j < length (vec[nat i := freq fd w * x]).
          \<exists>c. 0 \<le> c \<and> vec[nat i := freq fd w * x] ! j = c * idf_or_zero e (int j)"
  proof (intro allI impI)
    fix j assume j: "j < length (vec[nat i := freq fd w * x])"
    show "\<exists>c. 0 \<le> c \<and> vec[nat i := freq fd w * x] ! j = c * idf_or_zero e (int j)"
    proof (cases "j = nat i")
      case True
      then have "idf_or_zero e (int j) = x" using i0 x by (simp add: idf_or_zero_def)
      then show ?thesis using True j assms(1) by auto
    next
      case False
      then show ?thesis using Cons.prems(1) j by simp
    qed
  qed
  from Cons.IH [OF this rest] show ?case by simp
qed

lemma embed_text_sign:
  assumes "embed_text e doc = Inr v"
  shows "length v = nat (vocab_size e)
     \<and> (\<forall>j < length v. \<exists>c. 0 \<le> c \<and> v ! j = c * idf_or_zero e (int j))"
proof -
  let ?fd = "FreqDist (filter (has_key (vocab e)) (tokenizer e doc))"
  let ?vec = "replicate (nat (vocab_size e)) (0::real)"
  have loop: "embed_loop e ?fd (freqdist_iter ?fd) ?vec = Inr v"
    using assms by (simp add: embed_text_def Let_def split: if_splits)
  have "\<forall>j < length ?vec. \<exists>c. 0 \<le> c \<and> ?vec ! j = c * idf_or_zero e (int j)"
    by (intro allI impI exI [of _ 0]) simp
  from embed_loop_sign [OF _ this loop] show ?thesis
    by (simp add: freq_FreqDist_nonneg)
qed

lemma embeddings_same_sign:
  assumes "embed_text e d1 = Inr v" and "embed_text e d2 = Inr r"
  shows "\<forall>j. j < length v \<and> j < length r \<longrightarrow> 0 \<le> v ! j * r ! j"
proof (intro allI impI)
  fix j assume j: "j < length v \<and> j < length r"
  from embed_text_sign [OF assms(1)] j obtain c where
    c: "0 \<le> c" "v ! j = c * idf_or_zero e (int j)" by blast
  from embed_text_sign [OF assms(2)] j obtain c' where
    c': "0 \<le> c'" "r ! j = c' * idf_or_zero e (int j)" by blast
  have "v ! j * r ! j = (c * c') * (idf_or_zero e (int j) * idf_or_zero e (int j))"
    using c c' by (simp add: algebra_simps)
  moreover have "0 \<le> (c * c') * (idf_or_zero e (int j) * idf_or_zero e (int j))"
    using c c' by (simp add: mult_nonneg_nonneg del: mult_eq_0_iff)
  ultimately show "0 \<le> v ! j * r ! j" by simp
qed

lemma cosine_sign_faithful: "sign_faithful cosine"
  unfolding sign_faithful_def by (blast intro: cosine_nonneg dot_nonneg)

lemma find_best_match_Some_D:
  assumes "find_best_match score q (Some m) = Inr (best, s)"
  shows "best < length (rows m) \<and> s = score q (rows m ! best)"
proof -
  from assms have sims: "cosine_similarity score q (Some m) = Inr (map (score q) (rows m))"
    and ne: "rows m \<noteq> []"
    by (auto simp: find_best_match_def cosine_similarity_def split: if_splits sum.splits)
  from assms sims have am: "argmax (map (score q) (rows m)) = Inr best"
    and s: "s = map (score q) (rows m) ! best"
    by (auto simp: find_best_match_def split: sum.splits)
  from ne have "map (score q) (rows m) \<noteq> []" by simp
  from argmax_first_max [OF this] am have "best < length (rows m)" by auto
  then show ?thesis using s by simp
qed

lemma call_Inr_D:
  assumes "doc_vectors e = Some m" and "call score e doc n = Inr gs"
  shows "\<exists>q best. embed_text e doc = Inr q \<and> best < length (rows m)
     \<and> (\<forall>g \<in> set gs. confidence g = score q (rows m ! best))"
proof -
  from assms(2) obtain q best s where
    q: "embed_text e doc = Inr q" and
    fb: "find_best_match score q (doc_vectors e) = Inr (best, s)" and
    conf: "\<forall>g \<in> set gs. confidence g = s"
    by (auto simp: call_def split: if_splits sum.splits option.splits prod.splits)
  from fb assms(1) have "best < length (rows m)" "s = score q (rows m ! best)"
    using find_best_match_Some_D by auto
  then show ?thesis using q conf by auto
qed

lemma rows_are_embeddings:
  assumes "map (embed_text e) qs = map Inr (rows m)" and "best < length (rows m)"
  shows "embed_text e (qs ! best) = Inr (rows m ! best)"
proof -
  have len: "length qs = length (rows m)"
    using assms(1) by (metis length_map)
  have "map (embed_text e) qs ! best = map Inr (rows m) ! best"
    using assms(1) by simp
  then show ?thesis using assms(2) len by simp
qed

subsection \<open>The similarity in double precision\<close>

lemma round_half_even_nonneg: "0 \<le> x \<Longrightarrow> 0 \<le> round_half_even x"
  by (auto simp: round_half_even_def Let_def)

lemma round_half_even_eq:
  assumes "real_of_int m - 1 / 2 < x" and "x < real_of_int m + 1 / 2"
  shows "round_half_even x = m"
proof (cases "real_of_int m \<le> x")
  case True
  then have "\<lfloor>x\<rfloor> = m" using assms by linarith
  then show ?thesis using assms by (simp add: round_half_even_def Let_def)
next
  case False
  then have "\<lfloor>x\<rfloor> = m - 1" using assms by linarith
  then show ?thesis using assms False by (simp add: round_half_even_def Let_def)
qed

lemma float64_zero: "float64 0 = 0"
  by (simp add: float64_def)

lemma float64_nonneg: "0 \<le> x \<Longrightarrow> 0 \<le> float64 x"
  by (auto simp: float64_def Let_def round_half_even_nonneg sgn_if)

lemma float64_minus: "float64 (- x) = - float64 x"
  by (simp add: float64_def Let_def sgn_minus)

lemma float64_nonpos: "x \<le> 0 \<Longrightarrow> float64 x \<le> 0"
  using float64_nonneg [of "- x"] by (simp add: float64_minus)

lemma powr_minus_nat: "(2::real) powr (- real k) = 1 / 2 ^ k"
  by (simp add: powr_minus powr_realpow divide_inverse)

text \<open>
  A number of the interval from \<open>2 ^ (- k)\<close> to \<open>2 ^ (1 - k)\<close> is rounded to a
  multiple of \<open>2 ^ (- k - 52)\<close>.
\<close>

lemma float64_eval:
  assumes "1 \<le> x * 2 ^ k" and "x * 2 ^ k < 2"
  shows "float64 x = real_of_int (round_half_even (x * 2 ^ (k + 52))) / 2 ^ (k + 52)"
proof -
  have x: "0 < x"
  proof (rule ccontr)
    assume "\<not> 0 < x"
    then have "x * 2 ^ k \<le> 0" by (simp add: mult_le_0_iff)
    with assms(1) show False by simp
  qed
  have lo: "2 powr real_of_int (- int k) \<le> x"
    using assms(1) by (simp add: powr_minus_nat field_simps)
  have p: "2 powr real_of_int (- int k + 1) = 2 / 2 ^ k"
    by (simp add: powr_diff powr_realpow)
  have "x < 2 / 2 ^ k"
    using assms(2) by (simp add: pos_less_divide_eq)
  then have hi: "x < 2 powr real_of_int (- int k + 1)"
    by (simp only: p)
  have e: "\<lfloor>log 2 x\<rfloor> = - int k"
    using lo hi x by (simp add: floor_log_eq_powr_iff)
  have "real_of_int (- int k) - 52 = - real (k + 52)" by simp
  then have ulp: "2 powr (real_of_int (- int k) - 52) = 1 / 2 ^ (k + 52)"
    by (simp only: powr_minus_nat)
  show ?thesis
    using x by (simp add: float64_def Let_def e ulp del: of_int_minus)
qed

lemma float64_binade:
  "1 \<le> x \<Longrightarrow> x < 2 \<Longrightarrow> float64 x = real_of_int (round_half_even (x * 2 ^ 52)) / 2 ^ 52"
  "1 / 2 \<le> x \<Longrightarrow> x < 1 \<Longrightarrow> float64 x = real_of_int (round_half_even (x * 2 ^ 53)) / 2 ^ 53"
  "1 / 4 \<le> x \<Longrightarrow> x < 1 / 2 \<Longrightarrow> float64 x = real_of_int (round_half_even (x * 2 ^ 54)) / 2 ^ 54"
  "1 / 8 \<le> x \<Longrightarrow> x < 1 / 4 \<Longrightarrow> float64 x = real_of_int (round_half_even (x * 2 ^ 55)) / 2 ^ 55"
  "1 / 16 \<le> x \<Longrightarrow> x < 1 / 8 \<Longrightarrow> float64 x = real_of_int (round_half_even (x * 2 ^ 56)) / 2 ^ 56"
  using float64_eval [of x 0] float64_eval [of x 1] float64_eval [of x 2]
    float64_eval [of x 3] float64_eval [of x 4]
  by simp_all

text \<open>
  The double nearest to a square root, from two comparisons of squares.
\<close>

lemma float64_sqrt_eval:
  assumes "1 \<le> x * 4 ^ k" and "x * 4 ^ k < 4" and "1 \<le> m"
    and "(2 * real_of_int m - 1)\<^sup>2 < x * 4 ^ (k + 53)"
    and "x * 4 ^ (k + 53) < (2 * real_of_int m + 1)\<^sup>2"
  shows "float64 (sqrt x) = real_of_int m / 2 ^ (k + 52)"
proof -
  have four: "(4::real) ^ n = (2 ^ n)\<^sup>2" for n
    by (simp add: power2_eq_square power_mult_distrib [symmetric])
  have s: "sqrt x * 2 ^ n = sqrt (x * 4 ^ n)" for n
    by (simp add: real_sqrt_mult four)
  have a: "1 \<le> sqrt x * 2 ^ k"
    unfolding s using assms(1) by simp
  have "sqrt (x * 4 ^ k) < sqrt 4"
    using assms(2) by (simp only: real_sqrt_less_iff)
  then have b: "sqrt x * 2 ^ k < 2"
    unfolding s by simp
  have "k + 53 = Suc (k + 52)" by simp
  then have pw: "x * 4 ^ (k + 53) = (x * 4 ^ (k + 52)) * 4"
    by (simp only: power_Suc2 mult.assoc)
  have "(real_of_int m - 1 / 2)\<^sup>2 * 4 < (x * 4 ^ (k + 52)) * 4"
    using assms(4) unfolding pw by (simp add: power2_eq_square algebra_simps)
  then have "(real_of_int m - 1 / 2)\<^sup>2 < x * 4 ^ (k + 52)" by linarith
  then have lo: "real_of_int m - 1 / 2 < sqrt x * 2 ^ (k + 52)"
    unfolding s by (rule real_less_rsqrt)
  have "(x * 4 ^ (k + 52)) * 4 < (real_of_int m + 1 / 2)\<^sup>2 * 4"
    using assms(5) unfolding pw by (simp add: power2_eq_square algebra_simps)
  then have "x * 4 ^ (k + 52) < (real_of_int m + 1 / 2)\<^sup>2" by linarith
  then have hi: "sqrt x * 2 ^ (k + 52) < real_of_int m + 1 / 2"
    unfolding s using assms(3) by (intro real_less_lsqrt) simp_all
  show ?thesis
    using float64_eval [OF a b] round_half_even_eq [OF lo hi] by simp
qed

text \<open>
  The score in double precision is not negative for two rows without entries of
  opposite signs: rounding keeps the sign, and the norm by which a row is divided is
  positive.
\<close>

lemma float64_sum_nonneg:
  "0 \<le> acc \<Longrightarrow> \<forall>p \<in> set ps. 0 \<le> p \<Longrightarrow> 0 \<le> float64_sum acc ps"
  by (induction ps arbitrary: acc) (simp_all add: float64_nonneg)

lemma float64_dot_nonneg:
  assumes "\<forall>j. j < length x \<and> j < length y \<longrightarrow> 0 \<le> x ! j * y ! j"
  shows "0 \<le> float64_dot x y"
  unfolding float64_dot_def
proof (rule float64_sum_nonneg, simp, rule ballI)
  fix p assume "p \<in> set (map (\<lambda>(a, b). float64 (a * b)) (zip x y))"
  then obtain a b where ab: "(a, b) \<in> set (zip x y)" "p = float64 (a * b)" by auto
  then obtain j where "j < length x" "j < length y" "a = x ! j" "b = y ! j"
    by (auto simp: in_set_zip)
  then show "0 \<le> p" using assms ab by (simp add: float64_nonneg)
qed

lemma float64_normalize_sign:
  "length (float64_normalize x) = length x"
  "j < length x \<Longrightarrow> 0 \<le> x ! j \<Longrightarrow> 0 \<le> float64_normalize x ! j"
  "j < length x \<Longrightarrow> x ! j \<le> 0 \<Longrightarrow> float64_normalize x ! j \<le> 0"
  by (auto simp: float64_normalize_def Let_def float64_nonneg float64_nonpos
      divide_nonpos_pos not_less intro: order_less_le_trans [of 0 "10 / 2 ^ 52"])

lemma float64_cosine_sign_faithful: "sign_faithful float64_cosine"
  unfolding sign_faithful_def float64_cosine_def
proof (intro allI impI float64_dot_nonneg)
  fix x y :: "real list" and j
  assume same: "\<forall>j. j < length x \<and> j < length y \<longrightarrow> 0 \<le> x ! j * y ! j"
    and j: "j < length (float64_normalize x) \<and> j < length (float64_normalize y)"
  then have jx: "j < length x" and jy: "j < length y"
    by (simp_all add: float64_normalize_sign)
  from same jx jy have "0 \<le> x ! j * y ! j" by simp
  then consider "0 \<le> x ! j" "0 \<le> y ! j" | "x ! j \<le> 0" "y ! j \<le> 0"
    by (auto simp: zero_le_mult_iff)
  then show "0 \<le> float64_normalize x ! j * float64_normalize y ! j"
  proof cases
    case 1
    then show ?thesis using jx jy by (simp add: float64_normalize_sign)
  next
    case 2
    then show ?thesis using jx jy by (simp add: float64_normalize_sign mult_nonpos_nonpos)
  qed
qed

text \<open>
  The row \<open>[0, 1/2, 1/4, 1/4, 0]\<close> and itself. The sum of the squares is \<open>3/8\<close>, and
  its square root is rounded to \<open>5515760546423086 / 2 ^ 53\<close>; the row divided by it is
  \<open>7354347395230783 / 2 ^ 53\<close> and twice \<open>7354347395230783 / 2 ^ 54\<close>; the squares
  of these are rounded to \<open>6004799503160663 / 2 ^ 53\<close> and to a quarter of it, and their
  sum to \<open>1 + 2 ^ (- 52)\<close>, the double that is printed \<^verbatim>\<open>1.0000000000000002\<close>.
\<close>

lemma float64_norm_example: "float64 (sqrt (3 / 8)) = 5515760546423086 / 2 ^ 53"
  using float64_sqrt_eval [of "3 / 8" 1 5515760546423086] by simp

lemma float64_cosine_above_one:
  "float64_cosine [0, 1 / 2, 1 / 4, 1 / 4, 0] [0, 1 / 2, 1 / 4, 1 / 4, 0] = 1 + 1 / 2 ^ 52"
  by (simp add: float64_cosine_def float64_normalize_def float64_dot_def Let_def
      float64_zero float64_binade round_half_even_def float64_norm_example)

lemma float64_cosine_zero_row:
  "float64_cosine [0, 1 / 2, 1 / 4, 1 / 4, 0] [0, 0, 0, 0, 0] = 0"
  by (simp add: float64_cosine_def float64_normalize_def float64_dot_def Let_def
      float64_zero float64_binade round_half_even_def float64_norm_example)

text \<open>
  The engine trained on twenty documents embeds its first document at that row, and
  every other document at the row of zeros; the query interface, with the score in
  double precision, answers the first document with a confidence above 1. The weights of
  this engine are doubles that the code computes without rounding: the term frequencies
  are 4/8 and 2/8, and the inverse document frequencies are \<^verbatim>\<open>log(1.0) / log(10)\<close>,
  which is 0, and \<^verbatim>\<open>log(10.0) / log(10)\<close>, a double divided by itself.
\<close>

lemma list_update_Cons_numeral:
  "(x # xs)[numeral k := y] = x # xs[pred_numeral k := y]"
  by (simp add: numeral_eq_Suc)

lemma replicate_5: "replicate 5 x = [x, x, x, x, x]"
  by (simp add: eval_nat_numeral)

lemma embed_twenty_docs:
  "embed_text twenty_docs ''c c c c a a b b'' = Inr [0, 1 / 2, 1 / 4, 1 / 4, 0]"
  "embed_text twenty_docs ''z'' = Inr [0, 0, 0, 0, 0]"
  by (simp_all add: run_defs twenty_docs_def replicate_5 list_update_Cons_numeral)

lemma twenty_docs_fields:
  "doc_vectors twenty_docs = Some \<lparr>ncols = 5, rows =
        [0, 1 / 2, 1 / 4, 1 / 4, 0] # replicate 19 [0, 0, 0, 0, 0]\<rparr>"
  "questions twenty_docs = Some (''c c c c a a b b'' # replicate 19 ''z'')"
  "answers twenty_docs = Some (''C'' # replicate 19 ''Z'')"
  by (simp_all add: twenty_docs_def)

lemma trained_twenty_docs: "trained twenty_docs"
  by (simp add: trained_def twenty_docs_def toy_def init_def)

lemma rows_twenty_docs:
  "map (embed_text twenty_docs) (''c c c c a a b b'' # replicate 19 ''z'')
     = map Inr ([0, 1 / 2, 1 / 4, 1 / 4, 0] # replicate 19 [0, 0, 0, 0, 0])"
  by (simp add: embed_twenty_docs)

lemma argmax_loop_no_greater:
  "\<forall>x \<in> set xs. \<not> best_value < x \<Longrightarrow> argmax_loop best best_value i xs = best"
  by (induction xs arbitrary: i) simp_all

lemma call_twenty_docs:
  "call float64_cosine twenty_docs ''c c c c a a b b'' 1
     = Inr [\<lparr>question = ''c c c c a a b b'', guess = ''C'', confidence = 1 + 1 / 2 ^ 52\<rparr>]"
  by (simp add: call_def embed_twenty_docs find_best_match_def cosine_similarity_def argmax_def
      float64_cosine_above_one float64_cosine_zero_row twenty_docs_fields argmax_loop_no_greater)

text \<open>
  Two rows that tie in exact arithmetic need not tie in double precision. The vector
  \<open>[1/4, 1/2]\<close> has the same cosine similarity with \<open>[1/2, 3/8]\<close> and with
  \<open>[0, 1]\<close>, and the search with the exact score returns the first row; in double
  precision the score of the second row is greater by one unit in the last place, and the
  search returns the second row.
\<close>

lemma sqrt_25_64: "sqrt (25 / 64) = 5 / 8"
  by (rule real_sqrt_unique) (simp_all add: power2_eq_square)

lemma float64_sqrt_5_16: "float64 (sqrt (5 / 16)) = 5035177455121576 / 2 ^ 53"
  using float64_sqrt_eval [of "5 / 16" 1 5035177455121576] by simp

lemma float64_cosine_tie_rows:
  "float64_cosine [1 / 4, 1 / 2] [1 / 2, 3 / 8] = 8056283928194520 / 2 ^ 53"
  "float64_cosine [1 / 4, 1 / 2] [0, 1] = 8056283928194521 / 2 ^ 53"
  by (simp_all add: float64_cosine_def float64_normalize_def float64_dot_def Let_def
      float64_zero float64_binade round_half_even_def float64_sqrt_5_16 sqrt_25_64)

lemma cosine_tie_rows: "cosine [1 / 4, 1 / 2] [1 / 2, 3 / 8] = cosine [1 / 4, 1 / 2] [0, 1]"
  by (simp add: cosine_def l2_norm_def dot_def sqrt_25_64)

lemma find_best_match_exact_tie:
  "find_best_match cosine [1 / 4, 1 / 2] (Some tie_rows)
     = Inr (0, cosine [1 / 4, 1 / 2] [1 / 2, 3 / 8])"
  by (simp add: find_best_match_def cosine_similarity_def argmax_def tie_rows_def
      cosine_tie_rows)

lemma find_best_match_float64_no_tie:
  "find_best_match float64_cosine [1 / 4, 1 / 2] (Some tie_rows)
     = Inr (1, 8056283928194521 / 2 ^ 53)"
  by (simp add: find_best_match_def cosine_similarity_def argmax_def tie_rows_def
      float64_cosine_tie_rows)

subsection \<open>The confidence\<close>

text \<open>
  Claim C6 says that every TF-IDF weight of a query vector and of the document matrix is
  non-negative, and that the confidence therefore lies in \<open>[0, 1]\<close>. A token that occurs
  in every document has a negative inverse document frequency: on the engine trained on
  the one document \<open>a a\<close> the weight of \<open>a\<close> is \<open>log10 (1/2) < 0\<close>, in the query
  vector of \<open>a\<close> and in the row of the matrix. And the confidence is a double: on the
  engine trained on the twenty documents, whose weights are 0, 1/4 and 1/2, the query
  for the first document is answered with the confidence \<open>1 + 2 ^ (- 52)\<close>.
\<close>

theorem negative_weight_and_confidence_above_one:
  "trained single_doc
   \<and> embed_text single_doc ''a'' = Inr [ln (1 / 2) / ln 10, 0]
   \<and> doc_vectors single_doc = Some \<lparr>ncols = 2, rows = [[ln (1 / 2) / ln 10, 0]]\<rparr>
   \<and> ln (1 / 2) / ln 10 < (0::real)
   \<and> trained twenty_docs
   \<and> call float64_cosine twenty_docs ''c c c c a a b b'' 1
       = Inr [\<lparr>question = ''c c c c a a b b'', guess = ''C'', confidence = 1 + 1 / 2 ^ 52\<rparr>]
   \<and> (1::real) < 1 + 1 / 2 ^ 52"
proof -
  have "trained single_doc
   \<and> embed_text single_doc ''a'' = Inr [ln (1 / 2) / ln 10, 0]
   \<and> doc_vectors single_doc = Some \<lparr>ncols = 2, rows = [[ln (1 / 2) / ln 10, 0]]\<rparr>
   \<and> ln (1 / 2) / ln 10 < (0::real)"
    by (simp add: run_defs single_doc_def trained_def ln_div divide_neg_pos)
  moreover have "(1::real) < 1 + 1 / 2 ^ 52" by simp
  ultimately show ?thesis using trained_twenty_docs call_twenty_docs by blast
qed

text \<open>
  Claim C6 as amended: a TF-IDF weight can be negative, and the confidence can exceed 1
  by a rounding error, but it is never negative. Every weight of the query vector and of
  the document matrix is a non-negative multiple of the inverse document frequency of its
  id, so no entry of the query vector and the entry of a row below it have opposite
  signs. The rows of the document matrix are the embeddings of the training documents by
  the engine that embeds the query, as \<^verbatim>\<open>train\<close> builds them, and the score that the
  library returns for two rows without entries of opposite signs is not negative, as
  the score in double precision is (lemma \<open>float64_cosine_sign_faithful\<close>) and the
  exact one (lemma \<open>cosine_sign_faithful\<close>).
\<close>

theorem confidence_not_negative:
  assumes "sign_faithful score"
    and "doc_vectors e = Some m" and "questions e = Some qs"
    and "map (embed_text e) qs = map Inr (rows m)"
    and "call score e text n = Inr gs" and "g \<in> set gs"
  shows "(\<exists>q. embed_text e text = Inr q
            \<and> (\<forall>j < length q. \<exists>c. 0 \<le> c \<and> q ! j = c * idf_or_zero e (int j)))
     \<and> (\<forall>r \<in> set (rows m). \<forall>j < length r. \<exists>c. 0 \<le> c \<and> r ! j = c * idf_or_zero e (int j))
     \<and> 0 \<le> confidence g"
proof -
  from call_Inr_D [OF assms(2,5)] obtain q best where
    q: "embed_text e text = Inr q" and best: "best < length (rows m)" and
    conf: "\<forall>g \<in> set gs. confidence g = score q (rows m ! best)"
    by blast
  have row: "embed_text e (qs ! k) = Inr (rows m ! k)" if "k < length (rows m)" for k
    using assms(4) that by (rule rows_are_embeddings)
  have "0 \<le> score q (rows m ! best)"
    using assms(1) embeddings_same_sign [OF q row [OF best]]
    unfolding sign_faithful_def by blast
  then have "0 \<le> confidence g" using conf assms(6) by simp
  moreover have "\<forall>j < length r. \<exists>c. 0 \<le> c \<and> r ! j = c * idf_or_zero e (int j)"
    if "r \<in> set (rows m)" for r
  proof -
    from that obtain k where k: "k < length (rows m)" "r = rows m ! k"
      by (auto simp: in_set_conv_nth)
    from embed_text_sign [OF row [OF k(1)]] show ?thesis using k(2) by simp
  qed
  moreover have "\<forall>j < length q. \<exists>c. 0 \<le> c \<and> q ! j = c * idf_or_zero e (int j)"
    using embed_text_sign [OF q] by simp
  ultimately show ?thesis using q by blast
qed

theorem confidence_not_negative_witness:
  "sign_faithful float64_cosine
   \<and> doc_vectors twenty_docs
       = Some \<lparr>ncols = 5, rows = [0, 1 / 2, 1 / 4, 1 / 4, 0] # replicate 19 [0, 0, 0, 0, 0]\<rparr>
   \<and> questions twenty_docs = Some (''c c c c a a b b'' # replicate 19 ''z'')
   \<and> map (embed_text twenty_docs) (''c c c c a a b b'' # replicate 19 ''z'')
       = map Inr (rows \<lparr>ncols = 5,
                         rows = [0, 1 / 2, 1 / 4, 1 / 4, 0] # replicate 19 [0, 0, 0, 0, 0]\<rparr>)
   \<and> call float64_cosine twenty_docs ''c c c c a a b b'' 1
       = Inr [\<lparr>question = ''c c c c a a b b'', guess = ''C'', confidence = 1 + 1 / 2 ^ 52\<rparr>]
   \<and> \<lparr>question = ''c c c c a a b b'', guess = ''C'', confidence = 1 + 1 / 2 ^ 52\<rparr>
        \<in> set [\<lparr>question = ''c c c c a a b b'', guess = ''C'', confidence = 1 + 1 / 2 ^ 52\<rparr>]
   \<and> (\<exists>q. embed_text twenty_docs ''c c c c a a b b'' = Inr q
          \<and> (\<forall>j < length q. \<exists>c. 0 \<le> c \<and> q ! j = c * idf_or_zero twenty_docs (int j)))
   \<and> list_all (\<lambda>r. \<forall>j < length r. \<exists>c. 0 \<le> c \<and> r ! j = c * idf_or_zero twenty_docs (int j))
        ([0, 1 / 2, 1 / 4, 1 / 4, 0] # replicate 19 [0, 0, 0, 0, 0])
   \<and> 0 \<le> confidence \<lparr>question = ''c c c c a a b b'', guess = ''C'', confidence = 1 + 1 / 2 ^ 52\<rparr>"
proof -
  let ?m = "\<lparr>ncols = 5, rows = [0, 1 / 2, 1 / 4, 1 / 4, 0] # replicate 19 [0, 0, 0, 0, 0]\<rparr>"
  let ?g = "\<lparr>question = ''c c c c a a b b'', guess = ''C'', confidence = 1 + 1 / 2 ^ 52\<rparr>"
  have rows: "map (embed_text twenty_docs) (''c c c c a a b b'' # replicate 19 ''z'')
      = map Inr (rows ?m)"
    using rows_twenty_docs by simp
  have g: "?g \<in> set [?g]" by simp
  note facts = float64_cosine_sign_faithful twenty_docs_fields(1,2) rows call_twenty_docs g
  from confidence_not_negative [OF facts]
  have "(\<exists>q. embed_text twenty_docs ''c c c c a a b b'' = Inr q
          \<and> (\<forall>j < length q. \<exists>c. 0 \<le> c \<and> q ! j = c * idf_or_zero twenty_docs (int j)))
     \<and> (\<forall>r \<in> set (rows ?m).
          \<forall>j < length r. \<exists>c. 0 \<le> c \<and> r ! j = c * idf_or_zero twenty_docs (int j))
     \<and> 0 \<le> confidence ?g" .
  then have concl: "\<exists>q. embed_text twenty_docs ''c c c c a a b b'' = Inr q
          \<and> (\<forall>j < length q. \<exists>c. 0 \<le> c \<and> q ! j = c * idf_or_zero twenty_docs (int j))"
    "\<forall>r \<in> set (rows ?m).
          \<forall>j < length r. \<exists>c. 0 \<le> c \<and> r ! j = c * idf_or_zero twenty_docs (int j)"
    "0 \<le> confidence ?g"
    by blast+
  have all_rows:
    "list_all (\<lambda>r. \<forall>j < length r. \<exists>c. 0 \<le> c \<and> r ! j = c * idf_or_zero twenty_docs (int j))
        ([0, 1 / 2, 1 / 4, 1 / 4, 0] # replicate 19 [0, 0, 0, 0, 0])"
    using concl(2) by (simp only: list_all_iff matrix.select_convs)
  show ?thesis
    by (intro conjI) (rule facts concl(1,3) all_rows)+
qed

text \<open>
  In exact arithmetic the similarity is at most 1 as well, by the inequality of Cauchy
  and Schwarz.
\<close>

lemma exact_confidence_in_unit_interval:
  assumes "doc_vectors e = Some m" and "questions e = Some qs"
    and "map (embed_text e) qs = map Inr (rows m)"
    and "call cosine e doc n = Inr gs" and "g \<in> set gs"
  shows "0 \<le> confidence g \<and> confidence g \<le> 1"
proof -
  from call_Inr_D [OF assms(1,4)] obtain q best where
    q: "embed_text e doc = Inr q" and best: "best < length (rows m)" and
    conf: "\<forall>g \<in> set gs. confidence g = cosine q (rows m ! best)"
    by blast
  have row: "embed_text e (qs ! best) = Inr (rows m ! best)"
    using assms(3) best by (rule rows_are_embeddings)
  have "0 \<le> cosine q (rows m ! best)"
    by (rule cosine_nonneg) (rule dot_nonneg [OF embeddings_same_sign [OF q row]])
  moreover have "cosine q (rows m ! best) \<le> 1" by (rule cosine_le_one)
  ultimately show ?thesis using conf assms(5) by simp
qed

subsection \<open>Persistence\<close>

lemma vocab_lookup_cong:
  "vocab_final e' = vocab_final e \<Longrightarrow> vocab e' = vocab e \<Longrightarrow> vocab_size e' = vocab_size e
   \<Longrightarrow> vocab_lookup e' w = vocab_lookup e w"
  by (simp add: vocab_lookup_def split: option.splits)

lemma inv_docfreq_cong:
  "docs_final e' = docs_final e \<Longrightarrow> doc_freq e' = doc_freq e \<Longrightarrow> total_docs e' = total_docs e
   \<Longrightarrow> inv_docfreq e' i = inv_docfreq e i"
  by (simp add: inv_docfreq_def split: option.splits)

lemma embed_loop_cong:
  assumes "vocab_final e' = vocab_final e" "vocab e' = vocab e" "vocab_size e' = vocab_size e"
    "docs_final e' = docs_final e" "doc_freq e' = doc_freq e" "total_docs e' = total_docs e"
  shows "embed_loop e' fd ws v = embed_loop e fd ws v"
proof (induction ws arbitrary: v)
  case Nil
  show ?case by simp
next
  case (Cons w ws)
  show ?case
    using Cons.IH assms
    by (simp add: vocab_lookup_cong [OF assms(1-3)] inv_docfreq_cong [OF assms(4-6)]
        split: sum.splits)
qed

lemma embed_text_cong:
  assumes "vocab_final e' = vocab_final e" "vocab e' = vocab e" "vocab_size e' = vocab_size e"
    "docs_final e' = docs_final e" "doc_freq e' = doc_freq e" "total_docs e' = total_docs e"
    "tokenizer e' = tokenizer e"
  shows "embed_text e' doc = embed_text e doc"
  using assms by (simp add: embed_text_def embed_loop_cong [OF assms(1-6)])

lemma call_cong:
  assumes "embed_text e' doc = embed_text e doc" "doc_vectors e' = doc_vectors e"
    "questions e' = questions e" "answers e' = answers e"
  shows "call score e' doc n = call score e doc n"
  using assms by (simp add: call_def split: sum.splits prod.splits option.splits)

text \<open>
  \<^verbatim>\<open>save\<close> writes the vocabulary, the document matrix and the table of global counts,
  and the base class the questions and the answers; \<^verbatim>\<open>load\<close> reads them back. The
  file name and the tokenizer are arguments of the constructor. When the engine that
  loads has the file name and the tokenizer of the engine that saved, and the same table
  of document frequencies, the vocabulary, the document matrix and the result of every
  query are those of the engine that saved.
\<close>

lemma save_load_same_table:
  assumes "trained e"
    and "filename t = filename e" and "tokenizer t = tokenizer e" and "doc_freq t = doc_freq e"
  shows "\<exists>fs' e'. save e fs = Inr fs' \<and> load t fs' = Inr e'
     \<and> vocab e' = vocab e \<and> doc_vectors e' = doc_vectors e
     \<and> (\<forall>doc n. call score e' doc n = call score e doc n)"
proof -
  from assms(1) obtain qs ans m where
    qa: "questions e = Some qs" "answers e = Some ans" and
    m: "doc_vectors e = Some m" "total_docs e = length (rows m)" "int (ncols m) = vocab_size e" and
    fl: "vocab_final e" "docs_final e" "vocab_size e = int (length (vocab e))"
    by (auto simp: trained_def split: option.splits)
  define fs' where "fs' = fs\<lparr>metadata := (metadata fs)(filename e \<mapsto> (qs, ans)),
     pickles := (pickles fs)
       (filename e @ ''.vocab.pkl'' \<mapsto> PVocab (vocab e),
        filename e @ ''.tfidf.pkl'' \<mapsto> PMatrix (doc_vectors e),
        filename e @ ''.doccounts.pkl'' \<mapsto> PCounts (doc_counts e))\<rparr>"
  define e' where "e' = t\<lparr>questions := Some qs, answers := Some ans,
     vocab := vocab e, vocab_size := int (length (vocab e)), vocab_final := True,
     doc_vectors := Some m, doc_counts := doc_counts e, total_docs := length (rows m),
     docs_final := True\<rparr>"
  have s: "save e fs = Inr fs'"
    using qa by (simp add: save_def save_questions_and_answers_def fs'_def Let_def)
  have l: "load t fs' = Inr e'"
    using assms(2) m fl
    by (simp add: load_def load_questions_and_answers_def fs'_def e'_def Let_def)
  have emb: "embed_text e' doc = embed_text e doc" for doc
    by (rule embed_text_cong) (use assms m fl in \<open>simp_all add: e'_def\<close>)
  have "call score e' doc n = call score e doc n" for doc n
    by (rule call_cong) (use emb qa m in \<open>simp_all add: e'_def\<close>)
  then show ?thesis using s l m by (auto simp: e'_def)
qed

lemma save_load_same_object:
  "\<exists>fs' e'. save single_doc no_files = Inr fs' \<and> load single_doc fs' = Inr e'
     \<and> vocab e' = vocab single_doc \<and> doc_vectors e' = doc_vectors single_doc
     \<and> (\<forall>doc n. call score e' doc n = call score single_doc doc n)"
  by (rule save_load_same_table) (simp_all add: trained_def single_doc_def)


lemma answerable_without_table:
  "call score single_doc_reloaded ''zzz'' 1
     = Inr [\<lparr>question = ''a a'', guess = ''A'',
             confidence = score [0, 0] [ln (1 / 2) / ln 10, 0]\<rparr>]"
  by (simp add: run_defs single_doc_reloaded_def ln_div)

subsection \<open>Training\<close>

text \<open>
  On an engine without the attribute \<^verbatim>\<open>_doc_freq\<close>, as the constructor builds it,
  \<^verbatim>\<open>train\<close> never returns: when nothing else has failed, \<^verbatim>\<open>finalize_docs\<close> raises.
  When it does return, the engine is trained in the sense of \<open>trained\<close> and the rows of
  its matrix are the embeddings of its questions.
\<close>

lemma seen_loop_keeps_table: "seen_loop e ts = Inr e' \<Longrightarrow> doc_freq e' = doc_freq e"
proof (induction ts arbitrary: e)
  case Nil
  then show ?case by simp
next
  case (Cons ii ts)
  then show ?case
    by (auto simp: Let_def vocab_seen_def split: if_splits sum.splits)
qed

lemma vocab_pass_keeps_table: "vocab_pass e qs = Inr e' \<Longrightarrow> doc_freq e' = doc_freq e"
proof (induction qs arbitrary: e)
  case Nil
  then show ?case by simp
next
  case (Cons q qs)
  then show ?case
    by (auto split: sum.splits dest!: seen_loop_keeps_table)
qed

lemma scan_pass_keeps:
  "scan_pass e qs = Inr e' \<Longrightarrow> doc_freq e' = doc_freq e \<and> vocab e' = vocab e"
proof (induction qs arbitrary: e)
  case Nil
  then show ?case by simp
next
  case (Cons q qs)
  then show ?case
    by (auto split: sum.splits dest!: scan_document_keeps_table)
qed

theorem train_raises:
  assumes "doc_freq e = None"
  shows "\<exists>err. train e training_data = Inl err"
proof (rule ccontr)
  assume "\<not> (\<exists>err. train e training_data = Inl err)"
  then obtain e' where "train e training_data = Inr e'" by (cases "train e training_data") auto
  then obtain e1 e2 e3 e4 where
    p1: "vocab_pass (guesser_train e training_data) (map fst training_data) = Inr e1" and
    p2: "finalize_vocab e1 = Inr e2" and
    p3: "scan_pass e2 (map fst training_data) = Inr e3" and
    p4: "finalize_docs e3 = Inr e4"
    by (auto simp: train_def Let_def split: sum.splits if_splits)
  have "doc_freq e1 = None"
    using vocab_pass_keeps_table [OF p1] assms by (simp add: guesser_train_def)
  then have "doc_freq e2 = None" "vocab e2 \<noteq> []"
    using finalize_vocab_keeps_table [OF p2] by simp_all
  then have "doc_freq e3 = None" "vocab e3 \<noteq> []"
    using scan_pass_keeps [OF p3] by simp_all
  then have "finalize_docs e3 = Inl AttributeError" by (rule finalize_docs_without_table)
  with p4 show False by simp
qed

lemma embed_rows_map: "embed_rows e qs = Inr rs \<Longrightarrow> map (embed_text e) qs = map Inr rs"
  by (induction qs arbitrary: rs) (auto split: sum.splits)

lemma finalize_docs_D:
  "finalize_docs e = Inr e' \<Longrightarrow> e' = e\<lparr>docs_final := True\<rparr>"
  by (auto simp: finalize_docs_def Let_def split: option.splits)

lemma scan_pass_flags:
  "scan_pass e qs = Inr e' \<Longrightarrow>
   vocab_final e' = vocab_final e \<and> vocab_size e' = vocab_size e
   \<and> questions e' = questions e \<and> answers e' = answers e"
proof (induction qs arbitrary: e)
  case Nil
  then show ?case by simp
next
  case (Cons q qs)
  then show ?case
    by (auto simp: scan_document_def split: sum.splits if_splits)
qed

lemma seen_loop_metadata:
  "seen_loop e ts = Inr e' \<Longrightarrow> questions e' = questions e \<and> answers e' = answers e"
proof (induction ts arbitrary: e)
  case Nil
  then show ?case by simp
next
  case (Cons ii ts)
  then show ?case
    by (auto simp: Let_def vocab_seen_def split: if_splits sum.splits)
qed

lemma vocab_pass_metadata:
  "vocab_pass e qs = Inr e' \<Longrightarrow> questions e' = questions e \<and> answers e' = answers e"
proof (induction qs arbitrary: e)
  case Nil
  then show ?case by simp
next
  case (Cons q qs)
  then show ?case
    by (auto split: sum.splits dest!: seen_loop_metadata)
qed

lemma finalize_vocab_D:
  "finalize_vocab e = Inr e' \<Longrightarrow>
   vocab_final e' \<and> vocab_size e' = int (length (vocab e')) \<and> 0 < vocab_size e'
   \<and> questions e' = questions e \<and> answers e' = answers e"
  by (auto simp: finalize_vocab_def Let_def split: if_splits)

theorem train_establishes:
  assumes "train e training_data = Inr e'"
  shows "trained e' \<and> questions e' = Some (map fst training_data)
     \<and> (\<exists>m. doc_vectors e' = Some m
            \<and> map (embed_text e') (map fst training_data) = map Inr (rows m))"
proof -
  let ?qs = "map fst training_data"
  from assms obtain e1 e2 e3 e4 rs where
    p1: "vocab_pass (guesser_train e training_data) ?qs = Inr e1" and
    p2: "finalize_vocab e1 = Inr e2" and
    p3: "scan_pass e2 ?qs = Inr e3" and
    p4: "finalize_docs e3 = Inr e4" and
    p5: "total_docs e4 = length ?qs" and
    p6: "embed_rows e4 ?qs = Inr rs" and
    e': "e' = e4\<lparr>doc_vectors := Some \<lparr>ncols = nat (vocab_size e4), rows = rs\<rparr>\<rparr>"
    by (auto simp: train_def Let_def split: sum.splits if_splits)
  have q1: "questions e1 = Some ?qs" "answers e1 \<noteq> None"
    using vocab_pass_metadata [OF p1] by (simp_all add: guesser_train_def)
  note f2 = finalize_vocab_D [OF p2]
  note f3 = scan_pass_flags [OF p3] scan_pass_keeps [OF p3]
  note f4 = finalize_docs_D [OF p4]
  have rows: "map (embed_text e4) ?qs = map Inr rs" using p6 by (rule embed_rows_map)
  then have len: "length rs = length ?qs" by (metis length_map)
  have emb: "embed_text e' doc = embed_text e4 doc" for doc
    by (rule embed_text_cong) (simp_all add: e')
  have "trained e'"
    using q1 f2 f3 f4 p5 len by (simp add: trained_def e')
  moreover have "questions e' = Some ?qs" using q1 f2 f3 f4 by (simp add: e')
  moreover have "embed_text e' = embed_text e4" by (rule ext) (rule emb)
  then have "map (embed_text e') ?qs = map Inr rs" using rows by simp
  ultimately show ?thesis by (simp add: e')
qed

lemma train_single_doc:
  "train (toy\<lparr>doc_freq := Some [0 \<mapsto> 1]\<rparr>) [(''a a'', ''A'')] = Inr single_doc"
  by (simp add: train_def guesser_train_def run_defs global_freq_def vocab_key_def
      single_doc_def Let_def)

lemma train_toy: "train toy [(''a a'', ''A'')] = Inl AttributeError"
  by (simp add: train_def guesser_train_def run_defs global_freq_def vocab_key_def Let_def)

text \<open>
  The engine of twenty documents is what \<^verbatim>\<open>train\<close> returns for its corpus when the
  table of document frequencies is there.
\<close>

lemma counter_add_twice:
  "counter_add (counter_add d k a) k b = counter_add d k (a + b)"
  by (simp add: counter_add_def counter_get_def update_conv' AList.update_last add.assoc)

lemma counter_add_funpow:
  "((\<lambda>d. counter_add d k 1) ^^ Suc n) d = counter_add d k (1 + int n)"
proof (induction n)
  case 0
  show ?case by simp
next
  case (Suc n)
  have "((\<lambda>d. counter_add d k 1) ^^ Suc (Suc n)) d
      = counter_add (((\<lambda>d. counter_add d k 1) ^^ Suc n) d) k 1" by simp
  also have "\<dots> = counter_add d k (1 + int n + 1)"
    unfolding Suc.IH by (rule counter_add_twice)
  finally show ?case by (simp add: add.commute)
qed

lemma funpow_counter_add_swap:
  "((\<lambda>d. counter_add d k 1) ^^ n) (counter_add d0 k 1)
     = counter_add (((\<lambda>d. counter_add d k 1) ^^ n) d0) k 1"
  using funpow_swap1 [of "\<lambda>d. counter_add d k 1" n d0] by simp

lemma seen_loop_counts:
  "\<not> vocab_final e \<Longrightarrow> normalizer e = (\<lambda>w. w) \<Longrightarrow>
   seen_loop e ws = Inr (e\<lparr>doc_counts := foldl (\<lambda>d w. counter_add d w 1) (doc_counts e) ws\<rparr>)"
proof (induction ws arbitrary: e)
  case Nil
  then show ?case by simp
next
  case (Cons w ws)
  let ?e1 = "e\<lparr>doc_counts := counter_add (doc_counts e) w 1\<rparr>"
  have "seen_loop e (w # ws) = seen_loop ?e1 ws"
    using Cons.prems by (simp add: vocab_seen_def Let_def)
  also have "\<dots> = Inr (?e1\<lparr>doc_counts := foldl (\<lambda>d w. counter_add d w 1) (doc_counts ?e1) ws\<rparr>)"
    by (rule Cons.IH) (use Cons.prems in simp_all)
  finally show ?case by simp
qed

lemma str_split_z: "str_split ''z'' = [''z'']"
  by (simp add: str_split_def)

lemma str_split_first:
  "str_split ''c c c c a a b b'' = [''c'', ''c'', ''c'', ''c'', ''a'', ''a'', ''b'', ''b'']"
  by (simp add: str_split_def)

lemma vocab_pass_z:
  "\<not> vocab_final e \<Longrightarrow> normalizer e = (\<lambda>w. w) \<Longrightarrow> tokenizer e = str_split \<Longrightarrow>
   vocab_pass e (replicate n ''z'')
     = Inr (e\<lparr>doc_counts := ((\<lambda>d. counter_add d ''z'' 1) ^^ n) (doc_counts e)\<rparr>)"
proof (induction n arbitrary: e)
  case 0
  then show ?case by simp
next
  case (Suc n)
  let ?e1 = "e\<lparr>doc_counts := counter_add (doc_counts e) ''z'' 1\<rparr>"
  have s: "seen_loop e (tokenizer e ''z'') = Inr ?e1"
    using Suc.prems seen_loop_counts [of e "[''z'']"]
    by (simp add: str_split_z del: seen_loop.simps)
  have "vocab_pass e (replicate (Suc n) ''z'') = vocab_pass ?e1 (replicate n ''z'')"
    by (simp add: s)
  also have "\<dots> = Inr (?e1\<lparr>doc_counts := ((\<lambda>d. counter_add d ''z'' 1) ^^ n) (doc_counts ?e1)\<rparr>)"
    by (rule Suc.IH) (use Suc.prems in simp_all)
  also have "?e1\<lparr>doc_counts := ((\<lambda>d. counter_add d ''z'' 1) ^^ n) (doc_counts ?e1)\<rparr>
      = e\<lparr>doc_counts := ((\<lambda>d. counter_add d ''z'' 1) ^^ Suc n) (doc_counts e)\<rparr>"
    by (simp add: funpow_counter_add_swap)
  finally show ?case .
qed

lemma scan_pass_z:
  "vocab_final e \<Longrightarrow> \<not> docs_final e \<Longrightarrow> tokenizer e = str_split \<Longrightarrow> has_key (vocab e) ''z'' \<Longrightarrow>
   scan_pass e (replicate n ''z'')
     = Inr (e\<lparr>doc_counts := ((\<lambda>d. counter_add d ''z'' 1) ^^ n) (doc_counts e),
              total_docs := total_docs e + n\<rparr>)"
proof (induction n arbitrary: e)
  case 0
  then show ?case by simp
next
  case (Suc n)
  let ?e1 = "e\<lparr>doc_counts := counter_add (doc_counts e) ''z'' 1, total_docs := total_docs e + 1\<rparr>"
  have s: "scan_document e ''z'' = Inr ?e1"
    using Suc.prems by (simp add: scan_document_def str_split_z)
  have "scan_pass e (replicate (Suc n) ''z'') = scan_pass ?e1 (replicate n ''z'')"
    by (simp add: s)
  also have "\<dots> = Inr (?e1\<lparr>doc_counts := ((\<lambda>d. counter_add d ''z'' 1) ^^ n) (doc_counts ?e1),
                             total_docs := total_docs ?e1 + n\<rparr>)"
    by (rule Suc.IH) (use Suc.prems in simp_all)
  also have "?e1\<lparr>doc_counts := ((\<lambda>d. counter_add d ''z'' 1) ^^ n) (doc_counts ?e1),
                             total_docs := total_docs ?e1 + n\<rparr>
      = e\<lparr>doc_counts := ((\<lambda>d. counter_add d ''z'' 1) ^^ Suc n) (doc_counts e),
              total_docs := total_docs e + Suc n\<rparr>"
    by (simp add: funpow_counter_add_swap)
  finally show ?case .
qed

lemma embed_rows_replicate:
  "embed_text e q = Inr row \<Longrightarrow> embed_rows e (replicate n q) = Inr (replicate n row)"
  by (induction n) simp_all

lemma train_twenty_documents: "train toy_with_table twenty_documents = Inr twenty_docs"
proof -
  let ?first = "''c c c c a a b b''"
  have qs: "map fst twenty_documents = ?first # replicate 19 ''z''"
    by (simp add: twenty_documents_def)
  define e0 where "e0 = guesser_train toy_with_table twenty_documents"
  have f0: "\<not> vocab_final e0" "normalizer e0 = (\<lambda>w. w)" "tokenizer e0 = str_split"
    "doc_counts e0 = []" "max_vocab_size e0 = 50" "unk_cutoff e0 = 2"
    by (simp_all add: e0_def guesser_train_def toy_with_table_def toy_def init_def)
  \<comment> \<open>the counts of the tokens\<close>
  define e1 where "e1 = e0\<lparr>doc_counts := [(''c'', 4), (''a'', 2), (''b'', 2), (''z'', 19)]\<rparr>"
  have stage1: "vocab_pass e0 (?first # replicate 19 ''z'') = Inr e1"
  proof -
    let ?e = "e0\<lparr>doc_counts := [(''c'', 4), (''a'', 2), (''b'', 2)]\<rparr>"
    have "foldl (\<lambda>d w. counter_add d w 1) []
            [''c'', ''c'', ''c'', ''c'', ''a'', ''a'', ''b'', ''b'']
        = [(''c'', 4), (''a'', 2), (''b'', 2)]"
      by (simp add: counter_add_def counter_get_def)
    then have first: "seen_loop e0 (tokenizer e0 ?first) = Inr ?e"
      unfolding f0(3) str_split_first seen_loop_counts [OF f0(1,2)] f0(4) by (simp only:)
    have "vocab_pass e0 (?first # replicate 19 ''z'') = vocab_pass ?e (replicate 19 ''z'')"
      unfolding vocab_pass.simps first by simp
    also have "\<dots> = Inr (?e\<lparr>doc_counts := ((\<lambda>d. counter_add d ''z'' 1) ^^ 19) (doc_counts ?e)\<rparr>)"
      by (rule vocab_pass_z) (use f0 in simp_all)
    also have "((\<lambda>d. counter_add d ''z'' 1) ^^ 19) (doc_counts ?e)
        = [(''c'', 4), (''a'', 2), (''b'', 2), (''z'', 19)]"
      using counter_add_funpow [where k = "''z''" and n = 18 and d = "doc_counts ?e"]
      by (simp add: counter_add_def counter_get_def)
    finally show ?thesis by (simp add: e1_def)
  qed
  have f1: "\<not> vocab_final e1" "max_vocab_size e1 = 50" "unk_cutoff e1 = 2"
    "doc_counts e1 = [(''c'', 4), (''a'', 2), (''b'', 2), (''z'', 19)]"
    by (simp_all add: e1_def f0)
  \<comment> \<open>the vocabulary\<close>
  define e2 where "e2 = e1\<lparr>vocab := [(''z'', 0), (''c'', 1), (''a'', 2), (''b'', 3), (''<UNK>'', 4)],
      vocab_size := 5, vocab_final := True\<rparr>"
  have stage2: "finalize_vocab e1 = Inr e2"
  proof -
    have sorted: "sorted_by_count [(''c'', 4), (''a'', 2), (''b'', 2), (''z'', 19::int)]
        = [(''z'', 19), (''c'', 4), (''a'', 2), (''b'', 2)]"
      by (simp add: sorted_by_count_def)
    have kept: "filter (\<lambda>(i, (word, count)). (2::int) \<le> count)
         (enumerate 0 (py_slice_upto 50 [(''z'', 19), (''c'', 4), (''a'', 2), (''b'', 2)]))
       = [(0, (''z'', 19)), (1, (''c'', 4)), (2, (''a'', 2)), (3, (''b'', 2))]"
      by (simp add: py_slice_upto_def enumerate_eq_zip upt_rec)
    have v0: "dict_of_pairs (map (\<lambda>(i, (word, count :: int)). (word, int i))
         [(0, (''z'', 19)), (1, (''c'', 4)), (2, (''a'', 2)), (3, (''b'', 2))])
       = [(''z'', 0), (''c'', 1), (''a'', 2), (''b'', 3)]"
      by (simp add: dict_of_pairs_def)
    have v1: "AList.update kUNK (int (length [(''z'', 0::int), (''c'', 1), (''a'', 2), (''b'', 3)]))
         [(''z'', 0), (''c'', 1), (''a'', 2), (''b'', 3)]
       = [(''z'', 0), (''c'', 1), (''a'', 2), (''b'', 3), (''<UNK>'', 4)]"
      by (simp add: kUNK_def)
    show ?thesis
      unfolding finalize_vocab_def Let_def f1 sorted kept v0 v1
      by (simp add: f1 e2_def)
  qed
  have f2: "vocab_final e2" "\<not> docs_final e2" "tokenizer e2 = str_split"
    "has_key (vocab e2) ''z''" "total_docs e2 = 0"
    "doc_counts e2 = [(''c'', 4), (''a'', 2), (''b'', 2), (''z'', 19)]"
    "vocab e2 = [(''z'', 0), (''c'', 1), (''a'', 2), (''b'', 3), (''<UNK>'', 4)]"
    by (simp_all add: e2_def e1_def f0 has_key_def)
      (simp_all add: e0_def guesser_train_def toy_with_table_def toy_def init_def)
  \<comment> \<open>the scan of the documents\<close>
  define e3 where "e3 = e2\<lparr>doc_counts := [(''c'', 8), (''a'', 4), (''b'', 4), (''z'', 38)],
      total_docs := 20\<rparr>"
  have stage3: "scan_pass e2 (?first # replicate 19 ''z'') = Inr e3"
  proof -
    let ?e = "e2\<lparr>doc_counts := [(''c'', 8), (''a'', 4), (''b'', 4), (''z'', 19)], total_docs := 1\<rparr>"
    have first: "scan_document e2 ?first = Inr ?e"
      by (simp add: scan_document_def f2 str_split_first has_key_def counter_add_def
          counter_get_def)
    have "scan_pass e2 (?first # replicate 19 ''z'') = scan_pass ?e (replicate 19 ''z'')"
      unfolding scan_pass.simps first by simp
    also have "\<dots> = Inr (?e\<lparr>doc_counts := ((\<lambda>d. counter_add d ''z'' 1) ^^ 19) (doc_counts ?e),
                               total_docs := total_docs ?e + 19\<rparr>)"
      by (rule scan_pass_z) (use f2 in simp_all)
    also have "((\<lambda>d. counter_add d ''z'' 1) ^^ 19) (doc_counts ?e)
        = [(''c'', 8), (''a'', 4), (''b'', 4), (''z'', 38)]"
      using counter_add_funpow [where k = "''z''" and n = 18 and d = "doc_counts ?e"]
      by (simp add: counter_add_def counter_get_def)
    finally show ?thesis by (simp add: e3_def)
  qed
  have f3: "total_docs e3 = 20" "vocab_size e3 = 5"
    "doc_counts e3 = [(''c'', 8), (''a'', 4), (''b'', 4), (''z'', 38)]"
    "vocab e3 = [(''z'', 0), (''c'', 1), (''a'', 2), (''b'', 3), (''<UNK>'', 4)]"
    "doc_freq e3 = Some [0 \<mapsto> 19, 1 \<mapsto> 1, 2 \<mapsto> 1, 3 \<mapsto> 1]"
    by (simp_all add: e3_def e2_def e1_def e0_def guesser_train_def toy_with_table_def
        toy_def init_def)
  \<comment> \<open>the end of the scan, and the rows\<close>
  define e4 where "e4 = e3\<lparr>docs_final := True\<rparr>"
  have stage4: "finalize_docs e3 = Inr e4"
    by (simp add: finalize_docs_def Let_def f3 inv_docfreq_def inv_df_value_def
        log10_def global_freq_def vocab_key_def counter_get_def e4_def)
  have last: "e4\<lparr>doc_vectors := Some \<lparr>ncols = 5, rows =
        [0, 1 / 2, 1 / 4, 1 / 4, 0] # replicate 19 [0, 0, 0, 0, 0]\<rparr>\<rparr> = twenty_docs"
    by (simp add: e4_def e3_def e2_def e1_def e0_def guesser_train_def toy_with_table_def
        twenty_documents_def twenty_docs_def toy_def init_def)
  have "embed_text e4 doc = embed_text twenty_docs doc" for doc
    by (rule embed_text_cong) (simp_all add: last [symmetric])
  then have stage5: "embed_rows e4 (?first # replicate 19 ''z'')
      = Inr ([0, 1 / 2, 1 / 4, 1 / 4, 0] # replicate 19 [0, 0, 0, 0, 0])"
    by (simp add: embed_twenty_docs embed_rows_replicate)
  have n: "total_docs e4 = length (?first # replicate 19 ''z'')" "nat (vocab_size e4) = 5"
    by (simp_all add: e4_def f3)
  show ?thesis
    by (simp only: train_def Let_def e0_def [symmetric] qs stage1 stage2 stage3 stage4
        stage5 sum.case n last simp_thms if_False)
qed

end
